theory Spec2Isabelle
  imports Main
begin

section \<open>The Margolus sand automaton of Source.cpp\<close>

text \<open>
  The C++ \<open>int\<close> values of the source (cell states, coordinates, indices) are modelled as
  \<open>int\<close>. The grids considered have positive dimensions whose product is the length of the
  cell vector, as the constructor \<open>Margolus(W, H)\<close> builds them. On such a grid the values
  that occur stay small: a remainder by \<open>W\<close> lies strictly between \<open>-W\<close> and \<open>W\<close> (lemma
  \<open>cmod_bounds\<close>), a loop variable is at most \<open>W + 2\<close>, and an index is below \<open>W * H\<close>
  (lemma \<open>corner_indices_in_range\<close>); so 32-bit arithmetic does not overflow when \<open>2 * W\<close>,
  \<open>2 * H\<close> and \<open>W * H\<close> fit, as on the 160 by 120 grid of \<open>main\<close>. An access outside
  the vector or a remainder by zero is undefined behaviour in C++ and is the value \<open>None\<close>
  here.
\<close>

subsection \<open>Blocks and rules\<close>

text \<open>\<open>std::array<int, 4>\<close>: top left, top right, bottom left, bottom right.\<close>

type_synonym Block = "int \<times> int \<times> int \<times> int"

fun mirror_h :: "Block \<Rightarrow> Block" where
  "mirror_h (b0, b1, b2, b3) = (b1, b0, b3, b2)"

text \<open>One round of the loop of \<open>match_pattern\<close>: slot \<open>i\<close> passes when the pattern holds
  \<open>-1\<close> or the value of the block.\<close>

definition slot_matches :: "int \<Rightarrow> int \<Rightarrow> bool" where
  "slot_matches p v = (if p = -1 then True else if p \<noteq> v then False else True)"

fun match_pattern :: "Block \<Rightarrow> Block \<Rightarrow> bool" where
  "match_pattern (p0, p1, p2, p3) (b0, b1, b2, b3) =
     (slot_matches p0 b0 \<and> slot_matches p1 b1 \<and> slot_matches p2 b2 \<and> slot_matches p3 b3)"

definition slot_output :: "int \<Rightarrow> int \<Rightarrow> int" where
  "slot_output t v = (if t = -1 then v else t)"

fun apply_output_template :: "Block \<Rightarrow> Block \<Rightarrow> Block" where
  "apply_output_template (t0, t1, t2, t3) (i0, i1, i2, i3) =
     (slot_output t0 i0, slot_output t1 i1, slot_output t2 i2, slot_output t3 i3)"

record Rule =
  rule_in :: Block
  rule_out :: Block
  horizontal_reflection :: bool

definition build_sand_rules :: "Rule list" where
  "build_sand_rules =
     [\<lparr>rule_in = (1, 1, 0, 0), rule_out = (0, 0, 1, 1), horizontal_reflection = True\<rparr>,
      \<lparr>rule_in = (1, -1, 0, -1), rule_out = (0, -1, 1, -1), horizontal_reflection = True\<rparr>,
      \<lparr>rule_in = (1, 0, -1, 0), rule_out = (0, 0, -1, 1), horizontal_reflection = True\<rparr>,
      \<lparr>rule_in = (3, -1, 0, -1), rule_out = (3, -1, 1, -1), horizontal_reflection = True\<rparr>]"

text \<open>The loop over the rules inside \<open>step\<close>: the block written back by the first rule
  that applies, directly or on the mirror image, or \<open>None\<close> when the loop ends without
  \<open>applied\<close>.\<close>

fun rules_loop :: "Rule list \<Rightarrow> Block \<Rightarrow> Block option" where
  "rules_loop [] b = None"
| "rules_loop (r # rs) b =
     (if match_pattern (rule_in r) b then Some (apply_output_template (rule_out r) b)
      else if horizontal_reflection r \<and> match_pattern (rule_in r) (mirror_h b)
        then Some (mirror_h (apply_output_template (rule_out r) (mirror_h b)))
      else rules_loop rs b)"

subsection \<open>The grid\<close>

record Margolus =
  w :: int
  h :: int
  cells :: "int list"
  offset :: bool
  rules :: "Rule list"

text \<open>The constructor \<open>Margolus(W, H)\<close>.\<close>

definition Margolus_new :: "int \<Rightarrow> int \<Rightarrow> Margolus" where
  "Margolus_new W H =
     \<lparr>w = W, h = H, cells = replicate (nat (W * H)) 0, offset = False, rules = build_sand_rules\<rparr>"

text \<open>The remainder \<open>%\<close> of C++ truncates towards zero: its sign is the dividend's.\<close>

definition cmod :: "int \<Rightarrow> int \<Rightarrow> int" where
  "cmod a b = sgn a * (\<bar>a\<bar> mod \<bar>b\<bar>)"

text \<open>A vector access \<open>v[i]\<close>: defined inside the vector only.\<close>

definition load :: "int list \<Rightarrow> int \<Rightarrow> int option" where
  "load v i = (if 0 \<le> i \<and> i < int (length v) then Some (v ! nat i) else None)"

definition store :: "int list \<Rightarrow> int \<Rightarrow> int \<Rightarrow> int list option" where
  "store v i x = (if 0 \<le> i \<and> i < int (length v) then Some (v[nat i := x]) else None)"

text \<open>\<open>at(x, y)\<close> normalises both coordinates and returns a reference to
  \<open>cells[y * w + x]\<close>: \<open>at_index\<close> is the index referred to, \<open>at\<close> the value read through
  the reference, \<open>at_set\<close> the assignment through it.\<close>

definition at_index :: "Margolus \<Rightarrow> int \<Rightarrow> int \<Rightarrow> int option" where
  "at_index g x y =
     (if w g = 0 \<or> h g = 0 then None
      else let x' = cmod (cmod x (w g) + w g) (w g);
               y' = cmod (cmod y (h g) + h g) (h g);
               i = y' * w g + x'
           in if 0 \<le> i \<and> i < int (length (cells g)) then Some i else None)"

definition at :: "Margolus \<Rightarrow> int \<Rightarrow> int \<Rightarrow> int option" where
  "at g x y = (case at_index g x y of None \<Rightarrow> None | Some i \<Rightarrow> load (cells g) i)"

definition at_set :: "Margolus \<Rightarrow> int \<Rightarrow> int \<Rightarrow> int \<Rightarrow> Margolus option" where
  "at_set g x y v =
     (case at_index g x y of None \<Rightarrow> None
      | Some i \<Rightarrow> (case store (cells g) i v of None \<Rightarrow> None
                   | Some c \<Rightarrow> Some (g\<lparr>cells := c\<rparr>)))"

subsection \<open>One step\<close>

text \<open>The block read at the corner \<open>(x0, y0)\<close>.\<close>

definition read_block :: "Margolus \<Rightarrow> int \<Rightarrow> int \<Rightarrow> Block option" where
  "read_block g x0 y0 =
     (case at g x0 y0 of None \<Rightarrow> None | Some b0 \<Rightarrow>
      (case at g (x0 + 1) y0 of None \<Rightarrow> None | Some b1 \<Rightarrow>
       (case at g x0 (y0 + 1) of None \<Rightarrow> None | Some b2 \<Rightarrow>
        (case at g (x0 + 1) (y0 + 1) of None \<Rightarrow> None | Some b3 \<Rightarrow>
           Some (b0, b1, b2, b3)))))"

text \<open>The four assignments to \<open>next\<close>, the same in both branches of the rule loop.\<close>

definition write_block :: "int \<Rightarrow> int \<Rightarrow> int \<Rightarrow> int \<Rightarrow> Block \<Rightarrow> int list \<Rightarrow> int list option" where
  "write_block W H x0 y0 out nxt =
     (case out of (o0, o1, o2, o3) \<Rightarrow>
      (case store nxt (y0 * W + x0) o0 of None \<Rightarrow> None | Some n1 \<Rightarrow>
       (case store n1 (y0 * W + cmod (x0 + 1) W) o1 of None \<Rightarrow> None | Some n2 \<Rightarrow>
        (case store n2 (cmod (y0 + 1) H * W + x0) o2 of None \<Rightarrow> None | Some n3 \<Rightarrow>
           store n3 (cmod (y0 + 1) H * W + cmod (x0 + 1) W) o3))))"

text \<open>The body of the two nested loops, for the loop variables \<open>bx\<close> and \<open>by\<close>.\<close>

definition step_block :: "Margolus \<Rightarrow> int \<Rightarrow> int \<Rightarrow> int list \<Rightarrow> int list option" where
  "step_block g bx by nxt =
     (if w g = 0 \<or> h g = 0 then None
      else let x0 = cmod bx (w g); y0 = cmod by (h g)
           in (case read_block g x0 y0 of None \<Rightarrow> None
               | Some b \<Rightarrow> (case rules_loop (rules g) b of None \<Rightarrow> Some nxt
                            | Some out \<Rightarrow> write_block (w g) (h g) x0 y0 out nxt)))"

text \<open>\<open>for (int bx = ox; bx < w + ox; bx += 2)\<close>, entered at \<open>bx\<close>.\<close>

function inner_loop :: "Margolus \<Rightarrow> int \<Rightarrow> int \<Rightarrow> int \<Rightarrow> int list \<Rightarrow> int list option" where
  "inner_loop g ox by bx nxt =
     (if bx < w g + ox
      then (case step_block g bx by nxt of None \<Rightarrow> None
            | Some n \<Rightarrow> inner_loop g ox by (bx + 2) n)
      else Some nxt)"
  by pat_completeness auto
termination
  by (relation "measure (\<lambda>(g, ox, by, bx, nxt). nat (w g + ox - bx))") auto

text \<open>\<open>for (int by = oy; by < h + oy; by += 2)\<close>, entered at \<open>by\<close>.\<close>

function outer_loop :: "Margolus \<Rightarrow> int \<Rightarrow> int \<Rightarrow> int \<Rightarrow> int list \<Rightarrow> int list option" where
  "outer_loop g ox oy by nxt =
     (if by < h g + oy
      then (case inner_loop g ox by ox nxt of None \<Rightarrow> None
            | Some n \<Rightarrow> outer_loop g ox oy (by + 2) n)
      else Some nxt)"
  by pat_completeness auto
termination
  by (relation "measure (\<lambda>(g, ox, oy, by, nxt). nat (h g + oy - by))") auto

text \<open>Both loops are unfolded by hand, one round at a time.\<close>

declare inner_loop.simps [simp del] outer_loop.simps [simp del]

text \<open>\<open>step\<close> with the initial contents of the buffer \<open>next\<close> as a parameter; the source
  starts from a copy of \<open>cells\<close>.\<close>

definition step_from :: "int list \<Rightarrow> Margolus \<Rightarrow> Margolus option" where
  "step_from seed g =
     (let ox = (if offset g then 1 else 0);
          oy = (if offset g then 1 else 0)
      in (case outer_loop g ox oy oy seed of None \<Rightarrow> None
          | Some n \<Rightarrow> Some (g\<lparr>cells := n, offset := \<not> offset g\<rparr>)))"

definition step :: "Margolus \<Rightarrow> Margolus option" where
  "step g = step_from (cells g) g"

text \<open>\<open>N\<close> calls of \<open>step\<close> in a row.\<close>

fun steps :: "nat \<Rightarrow> Margolus \<Rightarrow> Margolus option" where
  "steps 0 g = Some g"
| "steps (Suc n) g = (case step g of None \<Rightarrow> None | Some g' \<Rightarrow> steps n g')"

text \<open>A grid as the constructor leaves it and every operation keeps it.\<close>

definition well_formed :: "Margolus \<Rightarrow> bool" where
  "well_formed g = (0 < w g \<and> 0 < h g \<and> int (length (cells g)) = w g * h g)"

subsection \<open>Clearing and random filling\<close>

definition clear :: "Margolus \<Rightarrow> Margolus" where
  "clear g = g\<lparr>cells := map (\<lambda>_. 0) (cells g)\<rparr>"

text \<open>
  \<open>randomize\<close> builds a fresh \<open>std::mt19937\<close> from the constant seed 12345 and draws one
  \<open>double\<close> per cell through \<open>std::uniform_real_distribution\<close>. Both are library code
  outside the repository, so the generator is a parameter here: \<open>seed_rng\<close> builds the
  state of the generator from a seed, and \<open>draw\<close> is one call \<open>d(rng)\<close>, which returns the
  number drawn and the next state. The numbers drawn are only compared with
  \<open>fill_prob\<close>, so their type is any type with \<open><\<close>.
\<close>

function randomize_loop ::
  "('s \<Rightarrow> 'd::ord \<times> 's) \<Rightarrow> 'd \<Rightarrow> Margolus \<Rightarrow> int \<Rightarrow> 's \<Rightarrow> int list \<Rightarrow> int list option" where
  "randomize_loop draw fill_prob g i rng cs =
     (if i < w g * h g
      then (case draw rng of (x, rng') \<Rightarrow>
              (case store cs i (if x < fill_prob then 1 else 0) of None \<Rightarrow> None
               | Some cs' \<Rightarrow> randomize_loop draw fill_prob g (i + 1) rng' cs'))
      else Some cs)"
  by pat_completeness auto
termination
  by (relation "measure (\<lambda>(draw, fill_prob, g, i, rng, cs). nat (w g * h g - i))") auto

declare randomize_loop.simps [simp del]

definition randomize :: "(int \<Rightarrow> 's) \<Rightarrow> ('s \<Rightarrow> 'd::ord \<times> 's) \<Rightarrow> 'd \<Rightarrow> Margolus \<Rightarrow> Margolus option" where
  "randomize seed_rng draw fill_prob g =
     (case randomize_loop draw fill_prob g 0 (seed_rng 12345) (cells g) of None \<Rightarrow> None
      | Some cs \<Rightarrow> Some (g\<lparr>cells := cs\<rparr>))"

text \<open>The state of the generator after \<open>k\<close> draws, and the cell the draw number \<open>k\<close>
  gives.\<close>

fun rng_after :: "('s \<Rightarrow> 'd \<times> 's) \<Rightarrow> nat \<Rightarrow> 's \<Rightarrow> 's" where
  "rng_after draw 0 s = s"
| "rng_after draw (Suc k) s = snd (draw (rng_after draw k s))"

definition random_cell :: "('s \<Rightarrow> 'd::ord \<times> 's) \<Rightarrow> 'd \<Rightarrow> 's \<Rightarrow> nat \<Rightarrow> int" where
  "random_cell draw fill_prob s k =
     (if fst (draw (rng_after draw k s)) < fill_prob then 1 else 0)"

text \<open>A generator to run \<open>randomize\<close> on: a linear congruential one, which draws the
  state modulo 100.\<close>

definition lcg_seed :: "int \<Rightarrow> nat" where
  "lcg_seed s = nat s"

definition lcg_draw :: "nat \<Rightarrow> nat \<times> nat" where
  "lcg_draw s = (s mod 100, (s * 75 + 74) mod 65537)"

subsection \<open>Notions used in the statements\<close>

text \<open>The values a vector holds at the four indices that \<open>step\<close> assigns for the corner
  \<open>(x0, y0)\<close> (lines 106 to 109 and 119 to 122 of the source), as a block.\<close>

definition block_at :: "int list \<Rightarrow> int \<Rightarrow> int \<Rightarrow> int \<Rightarrow> int \<Rightarrow> Block" where
  "block_at v W H x0 y0 =
     (v ! nat (y0 * W + x0),
      v ! nat (y0 * W + cmod (x0 + 1) W),
      v ! nat (cmod (y0 + 1) H * W + x0),
      v ! nat (cmod (y0 + 1) H * W + cmod (x0 + 1) W))"

text \<open>A relation between old and new values that holds slot by slot.\<close>

fun slotwise :: "(int \<Rightarrow> int \<Rightarrow> bool) \<Rightarrow> Block \<Rightarrow> Block \<Rightarrow> bool" where
  "slotwise R (b0, b1, b2, b3) (o0, o1, o2, o3) = (R b0 o0 \<and> R b1 o1 \<and> R b2 o2 \<and> R b3 o3)"

text \<open>The values the loop variable of a \<open>for\<close> loop of \<open>step\<close> takes when the dimension
  \<open>W\<close> is even: from the phase offset \<open>ofs\<close> in steps of two, below \<open>W + ofs\<close>.\<close>

definition anchor :: "int \<Rightarrow> int \<Rightarrow> int \<Rightarrow> bool" where
  "anchor ofs W a = (ofs \<le> a \<and> a < W + ofs \<and> even (a - ofs))"

definition phase_offset :: "Margolus \<Rightarrow> int" where
  "phase_offset g = (if offset g then 1 else 0)"

text \<open>The number of sand cells of a vector and of a block.\<close>

definition sand_count :: "int list \<Rightarrow> nat" where
  "sand_count v = length (filter (\<lambda>c. c = 1) v)"

fun block_sand :: "Block \<Rightarrow> nat" where
  "block_sand (b0, b1, b2, b3) =
     (if b0 = 1 then 1 else 0) + (if b1 = 1 then 1 else 0) +
     (if b2 = 1 then 1 else 0) + (if b3 = 1 then 1 else 0)"

text \<open>A grid whose dimensions are even, as the source asks (\<open>GRID_W\<close> and \<open>GRID_H\<close> must
  be even).\<close>

definition even_grid :: "Margolus \<Rightarrow> bool" where
  "even_grid g = (well_formed g \<and> even (w g) \<and> even (h g))"

text \<open>What \<open>step\<close> leaves in the buffer for the block with corner \<open>(ax, ay)\<close>, when the
  buffer started as \<open>seed\<close>: the output of the first rule that applies, or what the
  buffer held when none does.\<close>

definition block_result :: "Margolus \<Rightarrow> int list \<Rightarrow> int \<Rightarrow> int \<Rightarrow> Block" where
  "block_result g seed ax ay =
     (case rules_loop (rules g) (block_at (cells g) (w g) (h g) ax ay) of
        None \<Rightarrow> block_at seed (w g) (h g) ax ay
      | Some out \<Rightarrow> out)"

text \<open>The states of the sand model: empty, sand, ground, source.\<close>

definition in_domain :: "int \<Rightarrow> bool" where
  "in_domain c = (0 \<le> c \<and> c \<le> 3)"

subsection \<open>The grids of the scenarios\<close>

text \<open>A 4 by 4 grid, empty but for the block at \<open>(0, 0)\<close>, which is \<open>(1, 1, 0, 0)\<close>.\<close>

definition scenario_grid :: Margolus where
  "scenario_grid =
     (Margolus_new 4 4)\<lparr>cells := [1, 1, 0, 0,  0, 0, 0, 0,  0, 0, 0, 0,  0, 0, 0, 0]\<rparr>"

text \<open>The second rule of the sand table, alone.\<close>

definition mirror_rule :: Rule where
  "mirror_rule =
     \<lparr>rule_in = (1, -1, 0, -1), rule_out = (0, -1, 1, -1), horizontal_reflection = True\<rparr>"

text \<open>A 4 by 4 grid, empty but for the block at \<open>(0, 0)\<close>, which is \<open>(0, 1, 0, 2)\<close>.\<close>

definition mirror_grid :: "Rule list \<Rightarrow> Margolus" where
  "mirror_grid rs =
     \<lparr>w = 4, h = 4, cells = [0, 1, 0, 0,  0, 2, 0, 0,  0, 0, 0, 0,  0, 0, 0, 0],
      offset = False, rules = rs\<rparr>"

text \<open>A 4 by 4 grid holding all four states.\<close>

definition mixed_grid :: Margolus where
  "mixed_grid =
     (Margolus_new 4 4)\<lparr>cells := [1, 1, 0, 3,  0, 0, 2, 0,  3, 1, 3, 3,  0, 0, 3, 3]\<rparr>"

subsection \<open>Remainders and indices\<close>

lemma cmod_nonneg: "0 \<le> a \<Longrightarrow> 0 < b \<Longrightarrow> cmod a b = a mod b"
  by (cases "a = 0") (simp_all add: cmod_def)

lemma cmod_bounds:
  assumes "0 < b"
  shows "- b < cmod a b \<and> cmod a b < b"
proof -
  have m: "0 \<le> \<bar>a\<bar> mod b" "\<bar>a\<bar> mod b < b" using assms by simp_all
  have "cmod a b = \<bar>a\<bar> mod b \<or> cmod a b = - (\<bar>a\<bar> mod b)"
    using assms by (cases "0 \<le> a") (auto simp add: cmod_def sgn_if)
  then show ?thesis using m assms by linarith
qed

lemma cmod_normalise:
  assumes "0 < b"
  shows "cmod (cmod a b + b) b = a mod b"
proof (cases "0 \<le> a")
  case True
  with assms have "cmod a b = a mod b" by (simp add: cmod_nonneg)
  moreover have "0 \<le> a mod b + b" using assms by (simp add: add_nonneg_nonneg)
  ultimately show ?thesis using assms by (simp add: cmod_nonneg)
next
  case False
  then have c: "cmod a b = - ((- a) mod b)" using assms by (simp add: cmod_def)
  have "(- a) mod b < b" using assms by simp
  then have "0 \<le> cmod a b + b" using c by simp
  then have "cmod (cmod a b + b) b = (cmod a b + b) mod b" using assms by (rule cmod_nonneg)
  also have "\<dots> = (- ((- a) mod b)) mod b" using c by simp
  also have "\<dots> = a mod b" by (simp add: mod_minus_eq)
  finally show ?thesis .
qed

lemma index_in_range:
  fixes W H x y :: int
  assumes "0 \<le> x" "x < W" "0 \<le> y" "y < H"
  shows "0 \<le> y * W + x \<and> y * W + x < W * H"
proof -
  have "y + 1 \<le> H" using assms by simp
  then have "(y + 1) * W \<le> H * W" using assms by (intro mult_right_mono) auto
  then have "y * W + W \<le> W * H" by (simp add: algebra_simps)
  moreover have "0 \<le> y * W" using assms by simp
  ultimately show ?thesis using assms by linarith
qed

lemma index_inj:
  fixes W x y x' y' :: int
  assumes "0 \<le> x" "x < W" "0 \<le> x'" "x' < W" "y * W + x = y' * W + x'"
  shows "x = x' \<and> y = y'"
proof -
  have "(y * W + x) mod W = x mod W" "(y' * W + x') mod W = x' mod W" by simp_all
  then have "x mod W = x' mod W" using assms(5) by simp
  then have e: "x = x'" using assms(1-4) by simp
  then have "y * W = y' * W" using assms(5) by simp
  then have "y = y'" using assms(1,2) by simp
  with e show ?thesis by simp
qed

lemma at_index_wf:
  assumes "well_formed g"
  shows "at_index g x y = Some ((y mod h g) * w g + x mod w g)"
proof -
  have p: "0 < w g" "0 < h g" and l: "int (length (cells g)) = w g * h g"
    using assms by (simp_all add: well_formed_def)
  have "0 \<le> (y mod h g) * w g + x mod w g \<and> (y mod h g) * w g + x mod w g < w g * h g"
    using p by (intro index_in_range) simp_all
  then show ?thesis using p l by (simp add: at_index_def cmod_normalise)
qed

subsection \<open>Invariants of the two loops\<close>

lemma inner_loop_rule:
  assumes "I bx nxt"
    and "\<And>b n. I b n \<Longrightarrow> b < w g + ox \<Longrightarrow> \<exists>n'. step_block g b by n = Some n' \<and> I (b + 2) n'"
  shows "\<exists>n' b'. inner_loop g ox by bx nxt = Some n' \<and> I b' n' \<and> \<not> b' < w g + ox"
  using assms
proof (induction g ox "by" bx nxt rule: inner_loop.induct)
  case (1 g ox by' bx nxt)
  show ?case
  proof (cases "bx < w g + ox")
    case True
    from "1.prems"(2) [OF "1.prems"(1) True] obtain n where
      n: "step_block g bx by' nxt = Some n" "I (bx + 2) n" by blast
    from "1.IH" [OF True n(1) n(2) "1.prems"(2)] obtain n' b' where
      "inner_loop g ox by' (bx + 2) n = Some n'" "I b' n'" "\<not> b' < w g + ox" by blast
    then show ?thesis using True n(1) by (subst inner_loop.simps) auto
  next
    case False
    then show ?thesis using "1.prems"(1) by (subst inner_loop.simps) auto
  qed
qed

lemma outer_loop_rule:
  assumes "J by0 nxt"
    and "\<And>b n. J b n \<Longrightarrow> b < h g + oy \<Longrightarrow> \<exists>n'. inner_loop g ox b ox n = Some n' \<and> J (b + 2) n'"
  shows "\<exists>n' b'. outer_loop g ox oy by0 nxt = Some n' \<and> J b' n' \<and> \<not> b' < h g + oy"
  using assms
proof (induction g ox oy by0 nxt rule: outer_loop.induct)
  case (1 g ox oy by0 nxt)
  show ?case
  proof (cases "by0 < h g + oy")
    case True
    from "1.prems"(2) [OF "1.prems"(1) True] obtain n where
      n: "inner_loop g ox by0 ox nxt = Some n" "J (by0 + 2) n" by blast
    from "1.IH" [OF True n(1) n(2) "1.prems"(2)] obtain n' b' where
      "outer_loop g ox oy (by0 + 2) n = Some n'" "J b' n'" "\<not> b' < h g + oy" by blast
    then show ?thesis using True n(1) by (subst outer_loop.simps) auto
  next
    case False
    then show ?thesis using "1.prems"(1) by (subst outer_loop.simps) auto
  qed
qed

subsection \<open>One block on a grid of positive dimensions\<close>

lemma load_Some: "0 \<le> i \<Longrightarrow> i < int (length v) \<Longrightarrow> load v i = Some (v ! nat i)"
  by (simp add: load_def)

lemma at_wf:
  assumes "well_formed g"
  shows "at g x y = Some (cells g ! nat ((y mod h g) * w g + x mod w g))"
proof -
  have p: "0 < w g" "0 < h g" and l: "int (length (cells g)) = w g * h g"
    using assms by (simp_all add: well_formed_def)
  have "0 \<le> (y mod h g) * w g + x mod w g \<and> (y mod h g) * w g + x mod w g < w g * h g"
    using p by (intro index_in_range) simp_all
  then show ?thesis using l by (simp add: at_def at_index_wf [OF assms] load_def)
qed

lemma read_block_wf:
  assumes "well_formed g" "0 \<le> x0" "x0 < w g" "0 \<le> y0" "y0 < h g"
  shows "read_block g x0 y0 = Some (block_at (cells g) (w g) (h g) x0 y0)"
proof -
  have p: "0 < w g" "0 < h g" using assms(1) by (simp_all add: well_formed_def)
  have "cmod (x0 + 1) (w g) = (x0 + 1) mod w g" "cmod (y0 + 1) (h g) = (y0 + 1) mod h g"
    using assms p by (simp_all add: cmod_nonneg)
  then show ?thesis using assms(2-5)
    by (simp add: read_block_def at_wf [OF assms(1)] block_at_def)
qed

lemma write_block_effect:
  assumes "0 \<le> i0" "i0 < int (length n)" "0 \<le> i1" "i1 < int (length n)"
    "0 \<le> i2" "i2 < int (length n)" "0 \<le> i3" "i3 < int (length n)"
    and i: "i0 = y0 * W + x0" "i1 = y0 * W + cmod (x0 + 1) W"
      "i2 = cmod (y0 + 1) H * W + x0" "i3 = cmod (y0 + 1) H * W + cmod (x0 + 1) W"
  shows "write_block W H x0 y0 (o0, o1, o2, o3) n
           = Some (n[nat i0 := o0, nat i1 := o1, nat i2 := o2, nat i3 := o3])"
  using assms(1-8) unfolding write_block_def i [symmetric] by (simp add: store_def)

lemma corner_indices_in_range:
  assumes "0 < W" "0 < H" "0 \<le> x0" "x0 < W" "0 \<le> y0" "y0 < H"
  shows "0 \<le> y0 * W + x0 \<and> y0 * W + x0 < W * H"
    "0 \<le> y0 * W + cmod (x0 + 1) W \<and> y0 * W + cmod (x0 + 1) W < W * H"
    "0 \<le> cmod (y0 + 1) H * W + x0 \<and> cmod (y0 + 1) H * W + x0 < W * H"
    "0 \<le> cmod (y0 + 1) H * W + cmod (x0 + 1) W \<and> cmod (y0 + 1) H * W + cmod (x0 + 1) W < W * H"
proof -
  have c: "cmod (x0 + 1) W = (x0 + 1) mod W" "cmod (y0 + 1) H = (y0 + 1) mod H"
    using assms by (simp_all add: cmod_nonneg)
  show "0 \<le> y0 * W + x0 \<and> y0 * W + x0 < W * H"
    using assms by (intro index_in_range) simp_all
  show "0 \<le> y0 * W + cmod (x0 + 1) W \<and> y0 * W + cmod (x0 + 1) W < W * H"
    unfolding c using assms by (intro index_in_range) simp_all
  show "0 \<le> cmod (y0 + 1) H * W + x0 \<and> cmod (y0 + 1) H * W + x0 < W * H"
    unfolding c using assms by (intro index_in_range) simp_all
  show "0 \<le> cmod (y0 + 1) H * W + cmod (x0 + 1) W \<and> cmod (y0 + 1) H * W + cmod (x0 + 1) W < W * H"
    unfolding c using assms by (intro index_in_range) simp_all
qed

lemma write_block_wf:
  assumes "0 < W" "0 < H" "0 \<le> x0" "x0 < W" "0 \<le> y0" "y0 < H" "int (length n) = W * H"
  shows "write_block W H x0 y0 (o0, o1, o2, o3) n
           = Some (n[nat (y0 * W + x0) := o0, nat (y0 * W + cmod (x0 + 1) W) := o1,
                     nat (cmod (y0 + 1) H * W + x0) := o2,
                     nat (cmod (y0 + 1) H * W + cmod (x0 + 1) W) := o3])"
  using corner_indices_in_range [OF assms(1-6)] assms(7)
  by (intro write_block_effect) simp_all

lemma step_block_wf:
  assumes "well_formed g" "0 \<le> bx" "0 \<le> by" "length n = length (cells g)"
  shows "step_block g bx by n =
     (case rules_loop (rules g) (block_at (cells g) (w g) (h g) (bx mod w g) (by mod h g)) of
        None \<Rightarrow> Some n
      | Some out \<Rightarrow> write_block (w g) (h g) (bx mod w g) (by mod h g) out n)"
proof -
  have p: "0 < w g" "0 < h g" using assms(1) by (simp_all add: well_formed_def)
  have "read_block g (bx mod w g) (by mod h g)
          = Some (block_at (cells g) (w g) (h g) (bx mod w g) (by mod h g))"
    using p by (intro read_block_wf [OF assms(1)]) simp_all
  then show ?thesis using p assms(2,3) by (simp add: step_block_def cmod_nonneg Let_def)
qed

lemma four_updates_nth:
  "i < length n \<Longrightarrow> n[j0 := o0, j1 := o1, j2 := o2, j3 := o3] ! i =
     (if i = j3 then o3 else if i = j2 then o2 else if i = j1 then o1
      else if i = j0 then o0 else n ! i)"
  by (simp add: nth_list_update)

lemma four_updates_rel:
  fixes c :: "int list"
  assumes "n ! i = c ! i \<or> R (c ! i) (n ! i)"
    and "R (c ! j0) o0" "R (c ! j1) o1" "R (c ! j2) o2" "R (c ! j3) o3" and "i < length n"
  shows "n[j0 := o0, j1 := o1, j2 := o2, j3 := o3] ! i = c ! i \<or>
         R (c ! i) (n[j0 := o0, j1 := o1, j2 := o2, j3 := o3] ! i)"
  unfolding four_updates_nth [OF assms(6)] using assms(1-5) by auto

lemma step_block_pointwise:
  assumes g: "well_formed g" and b: "0 \<le> bx" "0 \<le> by" and n: "length n = length (cells g)"
    and R: "\<forall>b out. rules_loop (rules g) b = Some out \<longrightarrow> slotwise R b out"
    and inv: "\<forall>i < length n. n ! i = cells g ! i \<or> R (cells g ! i) (n ! i)"
  shows "\<exists>n'. step_block g bx by n = Some n' \<and> length n' = length (cells g) \<and>
           (\<forall>i < length n'. n' ! i = cells g ! i \<or> R (cells g ! i) (n' ! i))"
proof (cases "rules_loop (rules g) (block_at (cells g) (w g) (h g) (bx mod w g) (by mod h g))")
  case None
  then show ?thesis using inv n by (simp add: step_block_wf [OF g b n])
next
  case (Some out)
  obtain o0 o1 o2 o3 where out: "out = (o0, o1, o2, o3)" by (cases out) auto
  have p: "0 < w g" "0 < h g" and l: "int (length n) = w g * h g"
    using g n by (simp_all add: well_formed_def)
  let ?x = "bx mod w g" and ?y = "by mod h g"
  have r: "0 \<le> ?x" "?x < w g" "0 \<le> ?y" "?y < h g" using p by simp_all
  note ci = corner_indices_in_range [OF p r]
  have sw: "slotwise R (block_at (cells g) (w g) (h g) ?x ?y) (o0, o1, o2, o3)"
    using R Some unfolding out by blast
  have w: "step_block g bx by n
     = Some (n[nat (?y * w g + ?x) := o0, nat (?y * w g + cmod (?x + 1) (w g)) := o1,
               nat (cmod (?y + 1) (h g) * w g + ?x) := o2,
               nat (cmod (?y + 1) (h g) * w g + cmod (?x + 1) (w g)) := o3])"
    using Some out by (simp add: step_block_wf [OF g b n] write_block_wf [OF p r l])
  have "\<And>i. i < length n \<Longrightarrow>
      n[nat (?y * w g + ?x) := o0, nat (?y * w g + cmod (?x + 1) (w g)) := o1,
               nat (cmod (?y + 1) (h g) * w g + ?x) := o2,
               nat (cmod (?y + 1) (h g) * w g + cmod (?x + 1) (w g)) := o3] ! i = cells g ! i \<or>
      R (cells g ! i) (n[nat (?y * w g + ?x) := o0, nat (?y * w g + cmod (?x + 1) (w g)) := o1,
               nat (cmod (?y + 1) (h g) * w g + ?x) := o2,
               nat (cmod (?y + 1) (h g) * w g + cmod (?x + 1) (w g)) := o3] ! i)"
    using sw inv by (intro four_updates_rel) (simp_all add: block_at_def)
  then show ?thesis unfolding w using n by simp
qed

subsection \<open>A step changes a cell only as some rule changes a slot\<close>

lemma outer_loop_pointwise:
  assumes g: "well_formed g" and o: "0 \<le> ox" "0 \<le> oy"
    and R: "\<forall>b out. rules_loop (rules g) b = Some out \<longrightarrow> slotwise R b out"
  shows "\<exists>n'. outer_loop g ox oy oy (cells g) = Some n' \<and> length n' = length (cells g) \<and>
           (\<forall>i < length n'. n' ! i = cells g ! i \<or> R (cells g ! i) (n' ! i))"
proof -
  define P where "P n \<longleftrightarrow> length n = length (cells g) \<and>
     (\<forall>i < length n. n ! i = cells g ! i \<or> R (cells g ! i) (n ! i))" for n
  define Q where "Q b n \<longleftrightarrow> 0 \<le> b \<and> P n" for b :: int and n
  have inner: "\<exists>n'. inner_loop g ox b ox n = Some n' \<and> Q (b + 2) n'" if "Q b n" for b n
  proof -
    have "\<exists>n' c'. inner_loop g ox b ox n = Some n' \<and> Q c' n' \<and> \<not> c' < w g + ox"
    proof (rule inner_loop_rule [where I = Q])
      show "Q ox n" using that o by (simp add: Q_def)
    next
      fix c m assume "Q c m"
      then have c: "0 \<le> c" and b: "0 \<le> b" and m: "length m = length (cells g)"
        and i: "\<forall>i < length m. m ! i = cells g ! i \<or> R (cells g ! i) (m ! i)"
        using that by (simp_all add: Q_def P_def)
      have "\<exists>n'. step_block g c b m = Some n' \<and> length n' = length (cells g) \<and>
           (\<forall>i < length n'. n' ! i = cells g ! i \<or> R (cells g ! i) (n' ! i))"
        using g c b m R i by (rule step_block_pointwise)
      then show "\<exists>n'. step_block g c b m = Some n' \<and> Q (c + 2) n'"
        using c by (simp add: Q_def P_def)
    qed
    then show ?thesis using that by (auto simp add: Q_def)
  qed
  have "\<exists>n' b'. outer_loop g ox oy oy (cells g) = Some n' \<and> Q b' n' \<and> \<not> b' < h g + oy"
  proof (rule outer_loop_rule [where J = Q])
    show "Q oy (cells g)" using o by (simp add: Q_def P_def)
  qed (rule inner)
  then show ?thesis by (auto simp add: Q_def P_def)
qed

lemma step_pointwise:
  assumes g: "well_formed g"
    and R: "\<forall>b out. rules_loop (rules g) b = Some out \<longrightarrow> slotwise R b out"
  shows "\<exists>n'. step g = Some (g\<lparr>cells := n', offset := \<not> offset g\<rparr>) \<and>
           length n' = length (cells g) \<and>
           (\<forall>i < length n'. n' ! i = cells g ! i \<or> R (cells g ! i) (n' ! i))"
proof -
  have "\<exists>n'. outer_loop g (phase_offset g) (phase_offset g) (phase_offset g) (cells g) = Some n'
      \<and> length n' = length (cells g) \<and>
      (\<forall>i < length n'. n' ! i = cells g ! i \<or> R (cells g ! i) (n' ! i))"
    using g R by (intro outer_loop_pointwise) (simp_all add: phase_offset_def)
  then obtain n' where "outer_loop g (phase_offset g) (phase_offset g) (phase_offset g) (cells g) = Some n'"
      and r: "length n' = length (cells g)"
      "\<forall>i < length n'. n' ! i = cells g ! i \<or> R (cells g ! i) (n' ! i)" by blast
  then have "step g = Some (g\<lparr>cells := n', offset := \<not> offset g\<rparr>)"
    by (simp add: step_def step_from_def phase_offset_def)
  with r show ?thesis by blast
qed

lemma slotwise_True: "slotwise (\<lambda>_ _. True) b out"
  by (cases b; cases out) simp

lemma step_total:
  assumes "well_formed g"
  shows "\<exists>n'. step g = Some (g\<lparr>cells := n', offset := \<not> offset g\<rparr>) \<and>
           length n' = length (cells g)"
  using step_pointwise [where R = "\<lambda>_ _. True", OF assms] by (simp add: slotwise_True)

lemma step_wf: "well_formed g \<Longrightarrow> step g = Some g' \<Longrightarrow> well_formed g'"
  using step_total [of g] by (auto simp add: well_formed_def)

lemma steps_phase:
  "well_formed g \<Longrightarrow> \<exists>g'. steps N g = Some g' \<and> well_formed g' \<and> offset g' = (offset g \<noteq> odd N)"
proof (induction N arbitrary: g)
  case 0
  then show ?case by simp
next
  case (Suc N)
  from step_total [OF Suc.prems] obtain n' where
    s: "step g = Some (g\<lparr>cells := n', offset := \<not> offset g\<rparr>)" and "length n' = length (cells g)"
    by blast
  then have "well_formed (g\<lparr>cells := n', offset := \<not> offset g\<rparr>)" using Suc.prems by (simp add: well_formed_def)
  from Suc.IH [OF this] show ?case using s by auto
qed

subsection \<open>What the sand rules do to a block\<close>

lemma sand_rules_domain:
  "rules_loop build_sand_rules b = Some out \<Longrightarrow>
   slotwise (\<lambda>a c. in_domain a \<longrightarrow> in_domain c) b out"
  by (cases b; cases out)
    (auto simp add: build_sand_rules_def slot_matches_def slot_output_def in_domain_def
      split: if_splits)

lemma sand_rules_fixed:
  "rules_loop build_sand_rules b = Some out \<Longrightarrow>
   slotwise (\<lambda>a c. a = 2 \<or> a = 3 \<longrightarrow> c = a) b out"
  by (cases b; cases out)
    (auto simp add: build_sand_rules_def slot_matches_def slot_output_def
      split: if_splits)

lemma sand_rules_sand:
  "rules_loop build_sand_rules b = Some out \<Longrightarrow> block_sand b \<le> block_sand out"
  by (cases b; cases out)
    (auto simp add: build_sand_rules_def slot_matches_def slot_output_def
      split: if_splits)

text \<open>The first three rules move sand inside the block; the fourth, which applies only
  when none of them does, adds one grain below a source.\<close>

lemma sand_rules_exact:
  "rules_loop (take 3 build_sand_rules) b = Some out \<Longrightarrow> block_sand out = block_sand b"
  by (cases b; cases out)
    (auto simp add: build_sand_rules_def slot_matches_def slot_output_def
      split: if_splits)

lemma sand_source_adds:
  "rules_loop (take 3 build_sand_rules) b = None \<Longrightarrow>
   rules_loop build_sand_rules b = Some out \<Longrightarrow> block_sand out = block_sand b + 1"
  by (cases b; cases out)
    (auto simp add: build_sand_rules_def slot_matches_def slot_output_def
      split: if_splits)

lemma mirror_h_involution: "mirror_h (mirror_h b) = b"
  by (cases b) simp

subsection \<open>Grids of even dimensions: the blocks of a phase are disjoint\<close>

lemma anchor_range:
  assumes "anchor ofs W a" "even W" "ofs = 0 \<or> ofs = 1"
  shows "0 \<le> a \<and> a < W"
proof -
  have "ofs \<le> a" "a < W + ofs" "even (a - ofs)" using assms(1) by (simp_all add: anchor_def)
  then show ?thesis using assms(2,3) by presburger
qed

lemma anchor_succ:
  assumes "anchor ofs W a" "even W" "ofs = 0 \<or> ofs = 1"
  shows "cmod (a + 1) W = (if a + 1 = W then 0 else a + 1)"
proof -
  have r: "0 \<le> a \<and> a < W" using assms by (rule anchor_range)
  then have "cmod (a + 1) W = (a + 1) mod W" by (simp add: cmod_nonneg)
  then show ?thesis using r by simp
qed

lemma anchor_succ_range:
  assumes "anchor ofs W a" "even W" "ofs = 0 \<or> ofs = 1"
  shows "0 \<le> cmod (a + 1) W \<and> cmod (a + 1) W < W"
  using anchor_range [OF assms] by (simp add: anchor_succ [OF assms])

lemma anchor_succ_neq:
  assumes "anchor ofs W a" "anchor ofs W a'" "even W" "ofs = 0 \<or> ofs = 1"
  shows "cmod (a + 1) W \<noteq> a'"
proof -
  have "even (a - ofs)" "even (a' - ofs)" using assms(1,2) by (simp_all add: anchor_def)
  moreover have "0 \<le> a \<and> a < W" using assms(1,3,4) by (rule anchor_range)
  ultimately show ?thesis using assms(3,4) unfolding anchor_succ [OF assms(1,3,4)]
    by presburger
qed

lemma anchor_succ_inj:
  assumes "anchor ofs W a" "anchor ofs W a'" "even W" "ofs = 0 \<or> ofs = 1"
  shows "cmod (a + 1) W = cmod (a' + 1) W \<longleftrightarrow> a = a'"
proof -
  have "0 \<le> a \<and> a < W" "0 \<le> a' \<and> a' < W"
    using assms by (simp_all add: anchor_range)
  then show ?thesis
    unfolding anchor_succ [OF assms(1,3,4)] anchor_succ [OF assms(2,3,4)] by auto
qed

lemma nat_index_eq_iff:
  fixes W x y x' y' :: int
  assumes "0 \<le> x \<and> x < W" "0 \<le> x' \<and> x' < W" "0 \<le> y" "0 \<le> y'"
  shows "nat (y * W + x) = nat (y' * W + x') \<longleftrightarrow> x = x' \<and> y = y'"
proof -
  have "0 \<le> y * W + x" "0 \<le> y' * W + x'" using assms by simp_all
  then have "nat (y * W + x) = nat (y' * W + x') \<longleftrightarrow> y * W + x = y' * W + x'"
    by (rule eq_nat_nat_iff)
  also have "\<dots> \<longleftrightarrow> x = x' \<and> y = y'"
    using index_inj [of x W x' y y'] assms by auto
  finally show ?thesis .
qed

lemma block_four_updates:
  fixes W H :: int
  assumes x: "0 \<le> x0 \<and> x0 < W" "0 \<le> x1 \<and> x1 < W" "0 \<le> a0 \<and> a0 < W" "0 \<le> a1 \<and> a1 < W"
    and y: "0 \<le> y0 \<and> y0 < H" "0 \<le> y1 \<and> y1 < H" "0 \<le> c0 \<and> c0 < H" "0 \<le> c1 \<and> c1 < H"
    and l: "int (length n) = W * H"
    and dx: "x0 \<noteq> x1" "x0 \<noteq> a1" "x1 \<noteq> a0" "x1 = a1 \<longleftrightarrow> x0 = a0"
    and dy: "y0 \<noteq> y1" "y0 \<noteq> c1" "y1 \<noteq> c0" "y1 = c1 \<longleftrightarrow> y0 = c0"
    and n': "n' = n[nat (y0 * W + x0) := o0, nat (y0 * W + x1) := o1,
                   nat (y1 * W + x0) := o2, nat (y1 * W + x1) := o3]"
  shows "(n' ! nat (c0 * W + a0), n' ! nat (c0 * W + a1),
          n' ! nat (c1 * W + a0), n' ! nat (c1 * W + a1)) =
         (if a0 = x0 \<and> c0 = y0 then (o0, o1, o2, o3)
          else (n ! nat (c0 * W + a0), n ! nat (c0 * W + a1),
                n ! nat (c1 * W + a0), n ! nat (c1 * W + a1)))"
proof -
  have i: "nat (c0 * W + a0) < length n" "nat (c0 * W + a1) < length n"
    "nat (c1 * W + a0) < length n" "nat (c1 * W + a1) < length n"
    using index_in_range [of a0 W c0 H] index_in_range [of a1 W c0 H]
      index_in_range [of a0 W c1 H] index_in_range [of a1 W c1 H] x y l
    by (simp_all add: nat_less_iff)
  have e: "\<And>p q r s. 0 \<le> p \<and> p < W \<Longrightarrow> 0 \<le> r \<and> r < W \<Longrightarrow> 0 \<le> q \<and> q < H \<Longrightarrow> 0 \<le> s \<and> s < H
      \<Longrightarrow> nat (q * W + p) = nat (s * W + r) \<longleftrightarrow> p = r \<and> q = s"
    by (rule nat_index_eq_iff) simp_all
  show ?thesis unfolding n' four_updates_nth [OF i(1)] four_updates_nth [OF i(2)]
      four_updates_nth [OF i(3)] four_updates_nth [OF i(4)]
    using dx dy by (auto simp add: e x y)
qed

lemma write_block_even:
  assumes W: "0 < W" "even W" and H: "0 < H" "even H" and o: "ox = 0 \<or> ox = 1" "oy = 0 \<or> oy = 1"
    and b: "anchor ox W bx" "anchor oy H by" and a: "anchor ox W ax" "anchor oy H ay"
    and l: "int (length n) = W * H"
  shows "\<exists>n'. write_block W H bx by (o0, o1, o2, o3) n = Some n' \<and> length n' = length n \<and>
     block_at n' W H ax ay =
       (if ax = bx \<and> ay = by then (o0, o1, o2, o3) else block_at n W H ax ay)"
proof -
  let ?n = "n[nat (by * W + bx) := o0, nat (by * W + cmod (bx + 1) W) := o1,
              nat (cmod (by + 1) H * W + bx) := o2,
              nat (cmod (by + 1) H * W + cmod (bx + 1) W) := o3]"
  have rb: "0 \<le> bx \<and> bx < W" "0 \<le> by \<and> by < H"
    using b W H o by (simp_all add: anchor_range)
  then have w: "write_block W H bx by (o0, o1, o2, o3) n = Some ?n"
    using W H l by (intro write_block_wf) simp_all
  have "(?n ! nat (ay * W + ax), ?n ! nat (ay * W + cmod (ax + 1) W),
          ?n ! nat (cmod (ay + 1) H * W + ax), ?n ! nat (cmod (ay + 1) H * W + cmod (ax + 1) W)) =
         (if ax = bx \<and> ay = by then (o0, o1, o2, o3)
          else (n ! nat (ay * W + ax), n ! nat (ay * W + cmod (ax + 1) W),
                n ! nat (cmod (ay + 1) H * W + ax), n ! nat (cmod (ay + 1) H * W + cmod (ax + 1) W)))"
  proof (rule block_four_updates [where ?x0.0 = bx and ?x1.0 = "cmod (bx + 1) W"
        and ?y0.0 = "by" and ?y1.0 = "cmod (by + 1) H" and ?a0.0 = ax and ?a1.0 = "cmod (ax + 1) W"
        and ?c0.0 = ay and ?c1.0 = "cmod (ay + 1) H", OF _ _ _ _ _ _ _ _ l])
    show "0 \<le> bx \<and> bx < W" "0 \<le> by \<and> by < H" by (rule rb)+
    show "0 \<le> ax \<and> ax < W" using a(1) W(2) o(1) by (rule anchor_range)
    show "0 \<le> ay \<and> ay < H" using a(2) H(2) o(2) by (rule anchor_range)
    show "0 \<le> cmod (bx + 1) W \<and> cmod (bx + 1) W < W" using b(1) W(2) o(1) by (rule anchor_succ_range)
    show "0 \<le> cmod (ax + 1) W \<and> cmod (ax + 1) W < W" using a(1) W(2) o(1) by (rule anchor_succ_range)
    show "0 \<le> cmod (by + 1) H \<and> cmod (by + 1) H < H" using b(2) H(2) o(2) by (rule anchor_succ_range)
    show "0 \<le> cmod (ay + 1) H \<and> cmod (ay + 1) H < H" using a(2) H(2) o(2) by (rule anchor_succ_range)
    show "bx \<noteq> cmod (bx + 1) W" using anchor_succ_neq [OF b(1) b(1) W(2) o(1)] by simp
    show "bx \<noteq> cmod (ax + 1) W" using anchor_succ_neq [OF a(1) b(1) W(2) o(1)] by simp
    show "cmod (bx + 1) W \<noteq> ax" using b(1) a(1) W(2) o(1) by (rule anchor_succ_neq)
    show "cmod (bx + 1) W = cmod (ax + 1) W \<longleftrightarrow> bx = ax"
      using b(1) a(1) W(2) o(1) by (rule anchor_succ_inj)
    show "by \<noteq> cmod (by + 1) H" using anchor_succ_neq [OF b(2) b(2) H(2) o(2)] by simp
    show "by \<noteq> cmod (ay + 1) H" using anchor_succ_neq [OF a(2) b(2) H(2) o(2)] by simp
    show "cmod (by + 1) H \<noteq> ay" using b(2) a(2) H(2) o(2) by (rule anchor_succ_neq)
    show "cmod (by + 1) H = cmod (ay + 1) H \<longleftrightarrow> by = ay"
      using b(2) a(2) H(2) o(2) by (rule anchor_succ_inj)
  qed (rule refl)
  then show ?thesis unfolding w by (simp add: block_at_def)
qed

lemma step_block_even:
  assumes g: "even_grid g" and o: "ox = 0 \<or> ox = 1" "oy = 0 \<or> oy = 1"
    and b: "anchor ox (w g) bx" "anchor oy (h g) by" and a: "anchor ox (w g) ax" "anchor oy (h g) ay"
    and l: "length n = length (cells g)"
  shows "\<exists>n'. step_block g bx by n = Some n' \<and> length n' = length n \<and>
     block_at n' (w g) (h g) ax ay =
       (if ax = bx \<and> ay = by then block_result g n bx by else block_at n (w g) (h g) ax ay)"
proof -
  have wf: "well_formed g" and e: "even (w g)" "even (h g)" using g by (simp_all add: even_grid_def)
  have p: "0 < w g" "0 < h g" and l': "int (length n) = w g * h g"
    using wf l by (simp_all add: well_formed_def)
  have rb: "0 \<le> bx \<and> bx < w g" "0 \<le> by \<and> by < h g"
    using b e o by (simp_all add: anchor_range)
  then have m: "bx mod w g = bx" "by mod h g = by" by simp_all
  have s: "step_block g bx by n =
     (case rules_loop (rules g) (block_at (cells g) (w g) (h g) bx by) of
        None \<Rightarrow> Some n
      | Some out \<Rightarrow> write_block (w g) (h g) bx by out n)"
    using step_block_wf [OF wf _ _ l, of bx "by", unfolded m] rb by simp
  show ?thesis
  proof (cases "rules_loop (rules g) (block_at (cells g) (w g) (h g) bx by)")
    case None
    then show ?thesis unfolding s by (simp add: block_result_def)
  next
    case (Some out)
    obtain o0 o1 o2 o3 where out: "out = (o0, o1, o2, o3)" by (cases out) auto
    from write_block_even [OF p(1) e(1) p(2) e(2) o b a l', of o0 o1 o2 o3]
    show ?thesis unfolding s using Some out by (auto simp add: block_result_def)
  qed
qed

lemma block_result_cong:
  "block_at n (w g) (h g) ax ay = block_at seed (w g) (h g) ax ay \<Longrightarrow>
   block_result g n ax ay = block_result g seed ax ay"
  by (simp add: block_result_def split: option.split)

lemma outer_loop_even:
  assumes g: "even_grid g" and o: "ox = 0 \<or> ox = 1" "oy = 0 \<or> oy = 1"
    and l: "length seed = length (cells g)"
    and C: "C seed"
    and Cstep: "\<And>bx by n n'. anchor ox (w g) bx \<Longrightarrow> anchor oy (h g) by \<Longrightarrow>
        length n = length (cells g) \<Longrightarrow> C n \<Longrightarrow>
        block_at n (w g) (h g) bx by = block_at seed (w g) (h g) bx by \<Longrightarrow>
        step_block g bx by n = Some n' \<Longrightarrow> C n'"
  shows "\<exists>n'. outer_loop g ox oy oy seed = Some n' \<and> length n' = length seed \<and> C n' \<and>
     (\<forall>ax ay. anchor ox (w g) ax \<longrightarrow> anchor oy (h g) ay \<longrightarrow>
        block_at n' (w g) (h g) ax ay = block_result g seed ax ay)"
proof -
  define Inv where "Inv cy cx n \<longleftrightarrow> length n = length seed \<and> C n \<and>
     (\<forall>ax ay. anchor ox (w g) ax \<longrightarrow> anchor oy (h g) ay \<longrightarrow>
        block_at n (w g) (h g) ax ay =
          (if ay < cy \<or> (ay = cy \<and> ax < cx) then block_result g seed ax ay
           else block_at seed (w g) (h g) ax ay))" for cy cx n
  define I where "I cy cx n \<longleftrightarrow> ox \<le> cx \<and> even (cx - ox) \<and> Inv cy cx n" for cy cx n
  define J where "J cy n \<longleftrightarrow> oy \<le> cy \<and> even (cy - oy) \<and> Inv cy ox n" for cy n
  have body: "\<exists>n'. step_block g cx cy n = Some n' \<and> I cy (cx + 2) n'"
    if cy: "anchor oy (h g) cy" and i: "I cy cx n" and lt: "cx < w g + ox" for cy cx n
  proof -
    have cx: "anchor ox (w g) cx" using i lt by (simp add: I_def anchor_def)
    have ln: "length n = length (cells g)" and Cn: "C n"
      and inv: "\<And>ax ay. anchor ox (w g) ax \<Longrightarrow> anchor oy (h g) ay \<Longrightarrow>
        block_at n (w g) (h g) ax ay =
          (if ay < cy \<or> (ay = cy \<and> ax < cx) then block_result g seed ax ay
           else block_at seed (w g) (h g) ax ay)"
      using i l by (simp_all add: I_def Inv_def)
    from step_block_even [OF g o cx cy cx cy ln] obtain n' where
      s: "step_block g cx cy n = Some n'" and ln': "length n' = length n" by blast
    have here: "block_at n (w g) (h g) cx cy = block_at seed (w g) (h g) cx cy"
      using inv [OF cx cy] by simp
    have Cn': "C n'" using cx cy ln Cn here s by (rule Cstep)
    have "block_at n' (w g) (h g) ax ay =
          (if ay < cy \<or> (ay = cy \<and> ax < cx + 2) then block_result g seed ax ay
           else block_at seed (w g) (h g) ax ay)"
      if a: "anchor ox (w g) ax" "anchor oy (h g) ay" for ax ay
    proof -
      from step_block_even [OF g o cx cy a ln] s
      have e: "block_at n' (w g) (h g) ax ay =
        (if ax = cx \<and> ay = cy then block_result g n cx cy else block_at n (w g) (h g) ax ay)"
        by simp
      show ?thesis
      proof (cases "ax = cx \<and> ay = cy")
        case True
        then show ?thesis using e block_result_cong [OF here] by simp
      next
        case False
        have "even (ax - ox)" "even (cx - ox)" using a(1) cx by (simp_all add: anchor_def)
        then have "ay = cy \<Longrightarrow> ax < cx + 2 \<longleftrightarrow> ax < cx" using False by presburger
        then have "(ay < cy \<or> (ay = cy \<and> ax < cx + 2)) \<longleftrightarrow> (ay < cy \<or> (ay = cy \<and> ax < cx))"
          by blast
        then show ?thesis using e False inv [OF a] by simp
      qed
    qed
    then have "Inv cy (cx + 2) n'" using ln' ln l Cn' by (simp add: Inv_def)
    then have "I cy (cx + 2) n'" using i by (simp add: I_def)
    with s show ?thesis by blast
  qed
  have row: "\<exists>n'. inner_loop g ox cy ox n = Some n' \<and> J (cy + 2) n'"
    if j: "J cy n" and lt: "cy < h g + oy" for cy n
  proof -
    have cy: "anchor oy (h g) cy" using j lt by (simp add: J_def anchor_def)
    have "\<exists>n' c'. inner_loop g ox cy ox n = Some n' \<and> I cy c' n' \<and> \<not> c' < w g + ox"
    proof (rule inner_loop_rule [where I = "I cy"])
      show "I cy ox n" using j by (simp add: I_def J_def)
    qed (rule body [OF cy])
    then obtain n' c' where s: "inner_loop g ox cy ox n = Some n'"
      and i: "I cy c' n'" and ge: "w g + ox \<le> c'" by auto
    have "(ay < cy + 2 \<or> (ay = cy + 2 \<and> ax < ox)) \<longleftrightarrow> (ay < cy \<or> (ay = cy \<and> ax < c'))"
      if a: "anchor ox (w g) ax" "anchor oy (h g) ay" for ax ay
    proof -
      have "even (ay - oy)" "even (cy - oy)" "ox \<le> ax" "ax < w g + ox"
        using a cy by (simp_all add: anchor_def)
      then show ?thesis using ge by presburger
    qed
    then have "Inv (cy + 2) ox n'" using i by (simp add: I_def Inv_def)
    then have "J (cy + 2) n'" using j by (simp add: J_def)
    with s show ?thesis by blast
  qed
  have "\<exists>n' c'. outer_loop g ox oy oy seed = Some n' \<and> J c' n' \<and> \<not> c' < h g + oy"
  proof (rule outer_loop_rule [where J = J])
    show "J oy seed" using C o by (simp add: J_def Inv_def anchor_def)
  qed (rule row)
  then obtain n' c' where s: "outer_loop g ox oy oy seed = Some n'"
    and j: "J c' n'" and ge: "h g + oy \<le> c'" by auto
  have "ay < c'" if "anchor oy (h g) ay" for ay using that ge by (simp add: anchor_def)
  then have "\<forall>ax ay. anchor ox (w g) ax \<longrightarrow> anchor oy (h g) ay \<longrightarrow>
        block_at n' (w g) (h g) ax ay = block_result g seed ax ay"
    using j by (simp add: J_def Inv_def)
  then show ?thesis using s j by (auto simp add: J_def Inv_def)
qed

lemma step_from_even:
  assumes g: "even_grid g" and l: "length seed = length (cells g)"
    and C: "C seed"
    and Cstep: "\<And>bx by n n'. anchor (phase_offset g) (w g) bx \<Longrightarrow>
        anchor (phase_offset g) (h g) by \<Longrightarrow>
        length n = length (cells g) \<Longrightarrow> C n \<Longrightarrow>
        block_at n (w g) (h g) bx by = block_at seed (w g) (h g) bx by \<Longrightarrow>
        step_block g bx by n = Some n' \<Longrightarrow> C n'"
  shows "\<exists>n'. step_from seed g = Some (g\<lparr>cells := n', offset := \<not> offset g\<rparr>) \<and>
     length n' = length seed \<and> C n' \<and>
     (\<forall>ax ay. anchor (phase_offset g) (w g) ax \<longrightarrow> anchor (phase_offset g) (h g) ay \<longrightarrow>
        block_at n' (w g) (h g) ax ay = block_result g seed ax ay)"
proof -
  have o: "phase_offset g = 0 \<or> phase_offset g = 1" by (simp add: phase_offset_def)
  have "\<exists>n'. outer_loop g (phase_offset g) (phase_offset g) (phase_offset g) seed = Some n' \<and>
     length n' = length seed \<and> C n' \<and>
     (\<forall>ax ay. anchor (phase_offset g) (w g) ax \<longrightarrow> anchor (phase_offset g) (h g) ay \<longrightarrow>
        block_at n' (w g) (h g) ax ay = block_result g seed ax ay)"
    using g o o l C Cstep by (rule outer_loop_even [where C = C])
  then obtain n' where "outer_loop g (phase_offset g) (phase_offset g) (phase_offset g) seed = Some n'"
    and r: "length n' = length seed" "C n'"
      "\<forall>ax ay. anchor (phase_offset g) (w g) ax \<longrightarrow> anchor (phase_offset g) (h g) ay \<longrightarrow>
        block_at n' (w g) (h g) ax ay = block_result g seed ax ay"
    by blast
  then have "step_from seed g = Some (g\<lparr>cells := n', offset := \<not> offset g\<rparr>)"
    by (simp add: step_from_def phase_offset_def)
  with r show ?thesis by blast
qed

lemma sand_count_update:
  "i < length n \<Longrightarrow>
   sand_count (n[i := v]) + (if n ! i = 1 then 1 else 0) = sand_count n + (if v = 1 then 1 else 0)"
proof (induction n arbitrary: i)
  case Nil
  then show ?case by simp
next
  case (Cons c n)
  show ?case
  proof (cases i)
    case 0
    then show ?thesis by (simp add: sand_count_def)
  next
    case (Suc k)
    then have "k < length n" using Cons.prems by simp
    from Cons.IH [OF this] show ?thesis using Suc
      by (auto simp add: sand_count_def split: if_splits)
  qed
qed

lemma sand_count_four:
  assumes "i0 < length n" "i1 < length n" "i2 < length n" "i3 < length n"
    and "i0 \<noteq> i1" "i0 \<noteq> i2" "i0 \<noteq> i3" "i1 \<noteq> i2" "i1 \<noteq> i3" "i2 \<noteq> i3"
  shows "sand_count (n[i0 := o0, i1 := o1, i2 := o2, i3 := o3])
           + block_sand (n ! i0, n ! i1, n ! i2, n ! i3)
         = sand_count n + block_sand (o0, o1, o2, o3)"
proof -
  let ?n1 = "n[i0 := o0]" and ?n2 = "n[i0 := o0, i1 := o1]"
  let ?n3 = "n[i0 := o0, i1 := o1, i2 := o2]"
  have 1: "sand_count ?n1 + (if n ! i0 = 1 then 1 else 0) = sand_count n + (if o0 = 1 then 1 else 0)"
    using assms(1) by (rule sand_count_update)
  have "sand_count (?n1[i1 := o1]) + (if ?n1 ! i1 = 1 then 1 else 0)
      = sand_count ?n1 + (if o1 = 1 then 1 else 0)"
    using assms(2) by (intro sand_count_update) simp
  then have 2: "sand_count ?n2 + (if n ! i1 = 1 then 1 else 0)
      = sand_count ?n1 + (if o1 = 1 then 1 else 0)"
    using assms(5) by simp
  have "sand_count (?n2[i2 := o2]) + (if ?n2 ! i2 = 1 then 1 else 0)
      = sand_count ?n2 + (if o2 = 1 then 1 else 0)"
    using assms(3) by (intro sand_count_update) simp
  then have 3: "sand_count ?n3 + (if n ! i2 = 1 then 1 else 0)
      = sand_count ?n2 + (if o2 = 1 then 1 else 0)"
    using assms(6,8) by simp
  have "sand_count (?n3[i3 := o3]) + (if ?n3 ! i3 = 1 then 1 else 0)
      = sand_count ?n3 + (if o3 = 1 then 1 else 0)"
    using assms(4) by (intro sand_count_update) simp
  then have 4: "sand_count (?n3[i3 := o3]) + (if n ! i3 = 1 then 1 else 0)
      = sand_count ?n3 + (if o3 = 1 then 1 else 0)"
    using assms(7,9,10) by simp
  show ?thesis using 1 2 3 4 unfolding block_sand.simps by linarith
qed

lemma step_block_sand:
  assumes g: "even_grid g" and rs: "rules g = build_sand_rules"
    and o: "ox = 0 \<or> ox = 1" "oy = 0 \<or> oy = 1"
    and b: "anchor ox (w g) bx" "anchor oy (h g) by"
    and l: "length n = length (cells g)"
    and same: "block_at n (w g) (h g) bx by = block_at (cells g) (w g) (h g) bx by"
    and s: "step_block g bx by n = Some n'"
  shows "sand_count n \<le> sand_count n'"
proof -
  have wf: "well_formed g" and e: "even (w g)" "even (h g)" using g by (simp_all add: even_grid_def)
  have p: "0 < w g" "0 < h g" and l': "int (length n) = w g * h g"
    using wf l by (simp_all add: well_formed_def)
  have rx: "0 \<le> bx \<and> bx < w g" using b(1) e(1) o(1) by (rule anchor_range)
  have ry: "0 \<le> by \<and> by < h g" using b(2) e(2) o(2) by (rule anchor_range)
  have sx: "0 \<le> cmod (bx + 1) (w g) \<and> cmod (bx + 1) (w g) < w g"
    using b(1) e(1) o(1) by (rule anchor_succ_range)
  have sy: "0 \<le> cmod (by + 1) (h g) \<and> cmod (by + 1) (h g) < h g"
    using b(2) e(2) o(2) by (rule anchor_succ_range)
  have nx: "cmod (bx + 1) (w g) \<noteq> bx" using b(1) b(1) e(1) o(1) by (rule anchor_succ_neq)
  have ny: "cmod (by + 1) (h g) \<noteq> by" using b(2) b(2) e(2) o(2) by (rule anchor_succ_neq)
  have m: "bx mod w g = bx" "by mod h g = by" using rx ry by simp_all
  have sb: "step_block g bx by n =
     (case rules_loop build_sand_rules (block_at (cells g) (w g) (h g) bx by) of
        None \<Rightarrow> Some n
      | Some out \<Rightarrow> write_block (w g) (h g) bx by out n)"
    using step_block_wf [OF wf _ _ l, of bx "by", unfolded m rs] rx ry by simp
  show ?thesis
  proof (cases "rules_loop build_sand_rules (block_at (cells g) (w g) (h g) bx by)")
    case None
    then show ?thesis using s sb by simp
  next
    case (Some out)
    obtain o0 o1 o2 o3 where out: "out = (o0, o1, o2, o3)" by (cases out) auto
    let ?i0 = "nat (by * w g + bx)" and ?i1 = "nat (by * w g + cmod (bx + 1) (w g))"
    let ?i2 = "nat (cmod (by + 1) (h g) * w g + bx)"
    let ?i3 = "nat (cmod (by + 1) (h g) * w g + cmod (bx + 1) (w g))"
    have n': "n' = n[?i0 := o0, ?i1 := o1, ?i2 := o2, ?i3 := o3]"
      using s sb Some out write_block_wf [OF p _ _ _ _ l', of bx "by" o0 o1 o2 o3] rx ry by simp
    have r: "?i0 < length n" "?i1 < length n" "?i2 < length n" "?i3 < length n"
      using corner_indices_in_range [OF p, of bx "by"] rx ry l' by (simp_all add: nat_less_iff)
    have d: "?i0 \<noteq> ?i1" "?i0 \<noteq> ?i2" "?i0 \<noteq> ?i3" "?i1 \<noteq> ?i2" "?i1 \<noteq> ?i3" "?i2 \<noteq> ?i3"
      using rx ry sx sy nx ny by (simp_all add: nat_index_eq_iff)
    have "sand_count n' + block_sand (n ! ?i0, n ! ?i1, n ! ?i2, n ! ?i3)
        = sand_count n + block_sand (o0, o1, o2, o3)"
      unfolding n' using r d by (rule sand_count_four)
    moreover have "block_at n (w g) (h g) bx by = (n ! ?i0, n ! ?i1, n ! ?i2, n ! ?i3)"
      by (simp add: block_at_def)
    moreover have "block_sand (block_at (cells g) (w g) (h g) bx by) \<le> block_sand out"
      using Some by (rule sand_rules_sand)
    ultimately show ?thesis using same out by simp
  qed
qed

lemma anchor_cover:
  assumes "0 \<le> x" "x < W" "even W" "ofs = 0 \<or> ofs = 1"
  shows "\<exists>a. anchor ofs W a \<and> (x = a \<or> x = cmod (a + 1) W)"
proof (cases "even (x - ofs)")
  case True
  then have "anchor ofs W x" using assms unfolding anchor_def by presburger
  then show ?thesis by blast
next
  case False
  show ?thesis
  proof (cases "x = 0")
    case True
    then have o: "ofs = 1" using False assms(4) by auto
    then have a: "anchor ofs W (W - 1)" using assms True unfolding anchor_def by presburger
    from anchor_succ [OF a assms(3,4)] have "cmod (W - 1 + 1) W = 0" by simp
    with a True show ?thesis by (intro exI [of _ "W - 1"]) simp
  next
    case nz: False
    have a: "anchor ofs W (x - 1)" using False nz assms unfolding anchor_def by presburger
    from anchor_succ [OF a assms(3,4)] have "cmod (x - 1 + 1) W = x" using assms(2) by simp
    with a show ?thesis by (intro exI [of _ "x - 1"]) simp
  qed
qed

text \<open>
  The evenness matters. On a grid of width 3 the last block of a row wraps onto column 0,
  which the first block of the row covers too: below, the block at \<open>(0, 0)\<close> is
  \<open>(1, 2, 2, 2)\<close> and matches no rule, and the seam block at \<open>(2, 0)\<close>, which is
  \<open>(0, 1, 0, 2)\<close>, takes the sand of the cell they share.
\<close>

lemma odd_width_seam:
  "rules_loop build_sand_rules (block_at [1, 2, 0,  2, 2, 0] 3 2 0 0) = None \<and>
   step \<lparr>w = 3, h = 2, cells = [1, 2, 0,  2, 2, 0], offset = False, rules = build_sand_rules\<rparr>
     = Some \<lparr>w = 3, h = 2, cells = [0, 2, 0,  2, 2, 1], offset = True, rules = build_sand_rules\<rparr>"
  by code_simp

subsection \<open>The cells that \<open>randomize\<close> writes\<close>

lemma randomize_loop_from:
  assumes "int (length cs) = w g * h g" "k \<le> length cs"
  shows "randomize_loop draw p g (int k) (rng_after draw k s) cs
         = Some (take k cs @ map (random_cell draw p s) [k..<length cs])"
  using assms
proof (induction "length cs - k" arbitrary: k cs)
  case 0
  then have "k = length cs" by simp
  then show ?case using "0.prems"(1) by (subst randomize_loop.simps) simp
next
  case (Suc m)
  then have lt: "k < length cs" by simp
  let ?v = "random_cell draw p s k"
  have st: "store cs (int k) v = Some (cs[k := v])" for v using lt by (simp add: store_def)
  have "randomize_loop draw p g (int k) (rng_after draw k s) cs
      = randomize_loop draw p g (int (Suc k)) (rng_after draw (Suc k) s) (cs[k := ?v])"
    using lt Suc.prems(1) st
    by (subst randomize_loop.simps) (simp add: random_cell_def add.commute split: prod.split)
  also have "\<dots> = Some (take (Suc k) (cs[k := ?v])
        @ map (random_cell draw p s) [Suc k..<length (cs[k := ?v])])"
    using Suc.hyps(2) Suc.prems lt by (intro Suc.hyps(1)) simp_all
  also have "take (Suc k) (cs[k := ?v]) = take k cs @ [?v]"
    using lt by (simp add: take_Suc_conv_app_nth)
  finally show ?case using lt by (simp add: upt_conv_Cons)
qed

lemma randomize_cells:
  assumes "well_formed g"
  shows "randomize seed_rng draw p g
    = Some (g\<lparr>cells := map (random_cell draw p (seed_rng 12345)) [0..<nat (w g * h g)]\<rparr>)"
proof -
  have l: "int (length (cells g)) = w g * h g" using assms by (simp add: well_formed_def)
  then have n: "nat (w g * h g) = length (cells g)" by simp
  from randomize_loop_from [OF l, of 0 draw p "seed_rng 12345"]
  show ?thesis by (simp add: randomize_def n)
qed

section \<open>The claims\<close>

subsection \<open>C1: the falling block\<close>

text \<open>
  C1. On the 4 by 4 grid whose cells are 0 except for the block at \<open>(0, 0)\<close>, which is
  \<open>(1, 1, 0, 0)\<close>, one \<open>step\<close> in phase 0 succeeds, turns that block into \<open>(0, 0, 1, 1)\<close>
  (the first rule of the sand table), leaves every other cell 0 and flips the phase.
\<close>

theorem scenario_falling_block:
  "offset scenario_grid = False \<and> block_at (cells scenario_grid) 4 4 0 0 = (1, 1, 0, 0) \<and>
   match_pattern (rule_in (build_sand_rules ! 0)) (1, 1, 0, 0) \<and>
   apply_output_template (rule_out (build_sand_rules ! 0)) (1, 1, 0, 0) = (0, 0, 1, 1) \<and>
   step scenario_grid = Some ((Margolus_new 4 4)
     \<lparr>cells := [0, 0, 0, 0,  1, 1, 0, 0,  0, 0, 0, 0,  0, 0, 0, 0], offset := True\<rparr>) \<and>
   block_at [0, 0, 0, 0,  1, 1, 0, 0,  0, 0, 0, 0,  0, 0, 0, 0] 4 4 0 0 = (0, 0, 1, 1)"
  by code_simp

subsection \<open>C2: the mirrored rule on the block (0, 1, 0, 2)\<close>

text \<open>
  C2, as stated, fails. The block \<open>(0, 1, 0, 2)\<close> does not become \<open>(1, 0, 0, 2)\<close>: with the rule
  \<open>{1,*,0,*} \<rightarrow> {0,*,1,*}\<close> alone the step leaves it as it is, and with the whole sand
  table the step makes it \<open>(0, 0, 1, 2)\<close>.
\<close>

theorem mirror_example_counterexample:
  "step (mirror_grid [mirror_rule]) = Some ((mirror_grid [mirror_rule])\<lparr>offset := True\<rparr>) \<and>
   block_at (cells (mirror_grid [mirror_rule])) 4 4 0 0 \<noteq> (1, 0, 0, 2) \<and>
   step (mirror_grid build_sand_rules) = Some ((mirror_grid build_sand_rules)
     \<lparr>cells := [0, 0, 0, 0,  1, 2, 0, 0,  0, 0, 0, 0,  0, 0, 0, 0], offset := True\<rparr>) \<and>
   block_at [0, 0, 0, 0,  1, 2, 0, 0,  0, 0, 0, 0,  0, 0, 0, 0] 4 4 0 0 \<noteq> (1, 0, 0, 2)"
  by code_simp

text \<open>
  C2, as the code has it. The mirror image of \<open>(0, 1, 0, 2)\<close> is \<open>(1, 0, 2, 0)\<close>, whose
  slot 2 holds 2 and not 0, so the rule \<open>{1,*,0,*} \<rightarrow> {0,*,1,*}\<close> matches the block neither
  directly nor mirrored: a table of that rule alone leaves the block unchanged, and under
  the sand table it is the mirrored third rule \<open>{1,0,*,0} \<rightarrow> {0,0,*,1}\<close> that rewrites it,
  to \<open>(0, 0, 1, 2)\<close>. A block the rule does match mirrored, such as \<open>(0, 1, 2, 0)\<close>, is
  mirrored, instantiated and mirrored back, to \<open>(0, 0, 2, 1)\<close>; and mirroring twice is
  the identity.
\<close>

theorem mirror_example_amended:
  "block_at (cells (mirror_grid rs)) 4 4 0 0 = (0, 1, 0, 2) \<and>
   mirror_h (0, 1, 0, 2) = (1, 0, 2, 0) \<and>
   \<not> match_pattern (rule_in mirror_rule) (0, 1, 0, 2) \<and>
   \<not> match_pattern (rule_in mirror_rule) (mirror_h (0, 1, 0, 2)) \<and>
   step (mirror_grid [mirror_rule]) = Some ((mirror_grid [mirror_rule])\<lparr>offset := True\<rparr>) \<and>
   step (mirror_grid build_sand_rules) = Some ((mirror_grid build_sand_rules)
     \<lparr>cells := [0, 0, 0, 0,  1, 2, 0, 0,  0, 0, 0, 0,  0, 0, 0, 0], offset := True\<rparr>) \<and>
   block_at [0, 0, 0, 0,  1, 2, 0, 0,  0, 0, 0, 0,  0, 0, 0, 0] 4 4 0 0 = (0, 0, 1, 2) \<and>
   build_sand_rules ! 1 = mirror_rule \<and>
   rules_loop (take 2 build_sand_rules) (0, 1, 0, 2) = None \<and>
   \<not> match_pattern (rule_in (build_sand_rules ! 2)) (0, 1, 0, 2) \<and>
   match_pattern (rule_in (build_sand_rules ! 2)) (mirror_h (0, 1, 0, 2)) \<and>
   mirror_h (apply_output_template (rule_out (build_sand_rules ! 2)) (mirror_h (0, 1, 0, 2)))
     = (0, 0, 1, 2) \<and>
   rules_loop [mirror_rule] (0, 1, 2, 0)
     = Some (mirror_h (apply_output_template (rule_out mirror_rule) (mirror_h (0, 1, 2, 0)))) \<and>
   rules_loop [mirror_rule] (0, 1, 2, 0) = Some (0, 0, 2, 1) \<and>
   (\<forall>b. mirror_h (mirror_h b) = b)"
  by (simp add: mirror_h_involution) code_simp

subsection \<open>C3: what the buffer starts from\<close>

text \<open>
  C3, as stated, fails. On the 4 by 4 grid \<open>mixed_grid\<close> the step that starts the buffer
  from zeros does not give the grid that \<open>step\<close> gives: the block at \<open>(2, 2)\<close>, which is
  \<open>(3, 3, 3, 3)\<close> and matches no rule, is not written, so it keeps its four cells in
  \<open>step\<close> and is zero when the buffer starts from zeros.
\<close>

theorem zero_seed_counterexample:
  "even_grid mixed_grid \<and>
   step mixed_grid = Some (mixed_grid
     \<lparr>cells := [0, 0, 0, 3,  1, 1, 2, 1,  3, 0, 3, 3,  0, 1, 3, 3], offset := True\<rparr>) \<and>
   step_from [0, 0, 0, 0,  0, 0, 0, 0,  0, 0, 0, 0,  0, 0, 0, 0] mixed_grid = Some (mixed_grid
     \<lparr>cells := [0, 0, 0, 3,  1, 1, 2, 1,  3, 0, 0, 0,  0, 1, 0, 0], offset := True\<rparr>) \<and>
   step_from [0, 0, 0, 0,  0, 0, 0, 0,  0, 0, 0, 0,  0, 0, 0, 0] mixed_grid \<noteq> step mixed_grid"
  by code_simp

text \<open>
  C3, as the code has it. On a grid of even dimensions \<open>step\<close> is the step that starts the
  buffer from a copy of the cells, and for a buffer that starts from any vector \<open>seed\<close> of
  the same length the step returns and every block of the current partition ends as
  follows: a block that matches a rule, directly or mirrored, holds the four output slots
  of the first such rule, whatever the buffer held; a block that matches no rule is not
  written and holds what the buffer started with at its four cells (the old cells for the
  copy, zeros for a buffer of zeros).
\<close>

theorem step_from_block:
  assumes "even_grid g" "length seed = length (cells g)"
    and "anchor (phase_offset g) (w g) ax" "anchor (phase_offset g) (h g) ay"
  shows "step g = step_from (cells g) g \<and>
         (\<exists>g'. step_from seed g = Some g' \<and>
            block_at (cells g') (w g) (h g) ax ay =
              (case rules_loop (rules g) (block_at (cells g) (w g) (h g) ax ay) of
                 None \<Rightarrow> block_at seed (w g) (h g) ax ay
               | Some out \<Rightarrow> out))"
proof
  show "step g = step_from (cells g) g" by (simp add: step_def)
  have "\<exists>n'. step_from seed g = Some (g\<lparr>cells := n', offset := \<not> offset g\<rparr>) \<and>
     length n' = length seed \<and> True \<and>
     (\<forall>ax ay. anchor (phase_offset g) (w g) ax \<longrightarrow> anchor (phase_offset g) (h g) ay \<longrightarrow>
        block_at n' (w g) (h g) ax ay = block_result g seed ax ay)"
    using assms(1,2) by (rule step_from_even [where C = "\<lambda>_. True"]) simp_all
  then obtain n' where s: "step_from seed g = Some (g\<lparr>cells := n', offset := \<not> offset g\<rparr>)"
    and "block_at n' (w g) (h g) ax ay = block_result g seed ax ay"
    using assms(3,4) by auto
  then show "\<exists>g'. step_from seed g = Some g' \<and>
            block_at (cells g') (w g) (h g) ax ay =
              (case rules_loop (rules g) (block_at (cells g) (w g) (h g) ax ay) of
                 None \<Rightarrow> block_at seed (w g) (h g) ax ay
               | Some out \<Rightarrow> out)"
    by (simp add: block_result_def)
qed

theorem step_from_block_witness:
  "even_grid mixed_grid \<and>
   length [0, 0, 0, 0,  0, 0, 0, 0,  0, 0, 0, 0,  0, 0, 0, (0::int)] = length (cells mixed_grid) \<and>
   anchor (phase_offset mixed_grid) (w mixed_grid) 2 \<and>
   anchor (phase_offset mixed_grid) (h mixed_grid) 2 \<and>
   rules_loop (rules mixed_grid) (block_at (cells mixed_grid) (w mixed_grid) (h mixed_grid) 2 2)
     = None \<and>
   (\<exists>g'. step_from [0, 0, 0, 0,  0, 0, 0, 0,  0, 0, 0, 0,  0, 0, 0, 0] mixed_grid = Some g' \<and>
      block_at (cells g') (w mixed_grid) (h mixed_grid) 2 2 = (0, 0, 0, 0))"
proof -
  let ?z = "[0, 0, 0, 0,  0, 0, 0, 0,  0, 0, 0, 0,  0, 0, 0, (0::int)]"
  have a: "even_grid mixed_grid" by code_simp
  have b: "length ?z = length (cells mixed_grid)" by code_simp
  have c: "anchor (phase_offset mixed_grid) (w mixed_grid) 2" by code_simp
  have d: "anchor (phase_offset mixed_grid) (h mixed_grid) 2" by code_simp
  have e: "rules_loop (rules mixed_grid)
      (block_at (cells mixed_grid) (w mixed_grid) (h mixed_grid) 2 2) = None" by code_simp
  have f: "block_at ?z (w mixed_grid) (h mixed_grid) 2 2 = (0, 0, 0, 0)" by code_simp
  from step_from_block [OF a b c d] a b c d e f show ?thesis by simp
qed

subsection \<open>C4: a block that matches no rule\<close>

text \<open>
  C4. On a grid of even dimensions, a block of the current partition that matches no rule
  of the table, directly or mirrored, takes no failure path: its round of the loop returns
  the buffer as it was, \<open>step\<close> returns, and the four cells of the block are the same after
  the step as before. The block \<open>(3, 3, 3, 3)\<close> under the sand table is such a block.
\<close>

theorem unmatched_block_unchanged:
  assumes "even_grid g"
    and "anchor (phase_offset g) (w g) ax" "anchor (phase_offset g) (h g) ay"
    and "rules_loop (rules g) (block_at (cells g) (w g) (h g) ax ay) = None"
  shows "step_block g ax ay n = Some n \<and>
         (\<exists>g'. step g = Some g' \<and>
            block_at (cells g') (w g) (h g) ax ay = block_at (cells g) (w g) (h g) ax ay)"
proof
  have wf: "well_formed g" and e: "even (w g)" "even (h g)"
    using assms(1) by (simp_all add: even_grid_def)
  have o: "phase_offset g = 0 \<or> phase_offset g = 1" by (simp add: phase_offset_def)
  have rx: "0 \<le> ax \<and> ax < w g" using assms(2) e(1) o by (rule anchor_range)
  have ry: "0 \<le> ay \<and> ay < h g" using assms(3) e(2) o by (rule anchor_range)
  have "read_block g ax ay = Some (block_at (cells g) (w g) (h g) ax ay)"
    using wf rx ry by (intro read_block_wf) simp_all
  then show "step_block g ax ay n = Some n"
    using assms(4) rx ry wf by (simp add: step_block_def cmod_nonneg well_formed_def)
  have "\<exists>n'. step_from (cells g) g = Some (g\<lparr>cells := n', offset := \<not> offset g\<rparr>) \<and>
     length n' = length (cells g) \<and> True \<and>
     (\<forall>ax ay. anchor (phase_offset g) (w g) ax \<longrightarrow> anchor (phase_offset g) (h g) ay \<longrightarrow>
        block_at n' (w g) (h g) ax ay = block_result g (cells g) ax ay)"
    using assms(1) by (rule step_from_even [where C = "\<lambda>_. True"]) simp_all
  then obtain n' where s: "step g = Some (g\<lparr>cells := n', offset := \<not> offset g\<rparr>)"
    and "block_at n' (w g) (h g) ax ay = block_result g (cells g) ax ay"
    using assms(2,3) by (auto simp add: step_def)
  then have "block_at n' (w g) (h g) ax ay = block_at (cells g) (w g) (h g) ax ay"
    using assms(4) by (simp add: block_result_def)
  with s show "\<exists>g'. step g = Some g' \<and>
            block_at (cells g') (w g) (h g) ax ay = block_at (cells g) (w g) (h g) ax ay"
    by simp
qed

theorem unmatched_block_unchanged_witness:
  "even_grid mixed_grid \<and>
   anchor (phase_offset mixed_grid) (w mixed_grid) 2 \<and>
   anchor (phase_offset mixed_grid) (h mixed_grid) 2 \<and>
   block_at (cells mixed_grid) (w mixed_grid) (h mixed_grid) 2 2 = (3, 3, 3, 3) \<and>
   rules_loop (rules mixed_grid) (3, 3, 3, 3) = None \<and>
   rules mixed_grid = build_sand_rules \<and>
   (\<exists>g'. step mixed_grid = Some g' \<and>
      block_at (cells g') (w mixed_grid) (h mixed_grid) 2 2 = (3, 3, 3, 3))"
proof -
  have a: "even_grid mixed_grid" by code_simp
  have b: "anchor (phase_offset mixed_grid) (w mixed_grid) 2" by code_simp
  have c: "anchor (phase_offset mixed_grid) (h mixed_grid) 2" by code_simp
  have d: "block_at (cells mixed_grid) (w mixed_grid) (h mixed_grid) 2 2 = (3, 3, 3, 3)"
    by code_simp
  have e: "rules_loop (rules mixed_grid) (3, 3, 3, 3) = None" by code_simp
  have f: "rules mixed_grid = build_sand_rules" by code_simp
  have e': "rules_loop (rules mixed_grid)
      (block_at (cells mixed_grid) (w mixed_grid) (h mixed_grid) 2 2) = None"
    unfolding d by (rule e)
  from unmatched_block_unchanged [OF a b c e'] a b c d e f show ?thesis by simp
qed

subsection \<open>C5: the phase alternates\<close>

text \<open>
  C5. On a grid of positive dimensions every \<open>step\<close> returns and flips the phase, and
  after \<open>N\<close> steps the phase is the initial phase XOR \<open>N mod 2\<close>.
\<close>

theorem phase_alternation:
  assumes "well_formed g"
  shows "(\<exists>g'. step g = Some g' \<and> offset g' = (\<not> offset g)) \<and>
         (\<exists>g'. steps N g = Some g' \<and> offset g' = (offset g \<noteq> (N mod 2 = 1)))"
proof
  show "\<exists>g'. step g = Some g' \<and> offset g' = (\<not> offset g)"
    using step_total [OF assms] by auto
  have "odd N \<longleftrightarrow> N mod 2 = 1" by presburger
  then show "\<exists>g'. steps N g = Some g' \<and> offset g' = (offset g \<noteq> (N mod 2 = 1))"
    using steps_phase [OF assms, of N] by auto
qed

theorem phase_alternation_witness:
  "well_formed mixed_grid \<and>
   (\<exists>g'. step mixed_grid = Some g' \<and> offset g' = (\<not> offset mixed_grid)) \<and>
   (\<exists>g'. steps 3 mixed_grid = Some g' \<and> offset g' = (offset mixed_grid \<noteq> ((3::nat) mod 2 = 1)))"
proof -
  have a: "well_formed mixed_grid" by code_simp
  from phase_alternation [OF a, of 3] a show ?thesis by simp
qed

subsection \<open>C6: toroidal indexing\<close>

text \<open>
  C6. On a grid of positive dimensions \<open>at\<close> is defined for all integer coordinates, also
  negative ones: both normalised coordinates \<open>((x % W) + W) % W\<close> and
  \<open>((y % H) + H) % H\<close> lie inside the grid, the index is inside the cell vector, and the
  cell read is the one at the normalised coordinates; \<open>at(-1, -1)\<close> is \<open>at(W - 1, H - 1)\<close>.
\<close>

theorem toroidal_at:
  assumes "well_formed g"
  shows "0 \<le> cmod (cmod x (w g) + w g) (w g) \<and> cmod (cmod x (w g) + w g) (w g) < w g \<and>
         0 \<le> cmod (cmod y (h g) + h g) (h g) \<and> cmod (cmod y (h g) + h g) (h g) < h g \<and>
         nat (cmod (cmod y (h g) + h g) (h g) * w g + cmod (cmod x (w g) + w g) (w g))
           < length (cells g) \<and>
         at g x y = Some (cells g !
           nat (cmod (cmod y (h g) + h g) (h g) * w g + cmod (cmod x (w g) + w g) (w g))) \<and>
         at g (-1) (-1) = at g (w g - 1) (h g - 1)"
proof -
  have p: "0 < w g" "0 < h g" and l: "int (length (cells g)) = w g * h g"
    using assms by (simp_all add: well_formed_def)
  have c: "cmod (cmod x (w g) + w g) (w g) = x mod w g"
    "cmod (cmod y (h g) + h g) (h g) = y mod h g"
    using p by (simp_all add: cmod_normalise)
  have r: "0 \<le> (y mod h g) * w g + x mod w g \<and> (y mod h g) * w g + x mod w g < w g * h g"
    using p by (intro index_in_range) simp_all
  have m: "(- 1) mod w g = (w g - 1) mod w g" "(- 1) mod h g = (h g - 1) mod h g"
    by (simp_all add: mod_diff_left_eq [symmetric, of "w g"] mod_diff_left_eq [symmetric, of "h g"])
  show ?thesis unfolding c using p r l m by (simp add: at_wf [OF assms] nat_less_iff)
qed

theorem toroidal_at_witness:
  "well_formed mixed_grid \<and>
   at mixed_grid (-1) (-1) = Some 3 \<and> at mixed_grid (w mixed_grid - 1) (h mixed_grid - 1) = Some 3 \<and>
   at mixed_grid (-7) 9 = Some (cells mixed_grid ! 5) \<and> cmod (cmod (-7) 4 + 4) 4 = 1"
proof -
  have a: "well_formed mixed_grid" by code_simp
  have "at mixed_grid (-7) 9 = Some (cells mixed_grid ! 5)" by code_simp
  moreover have "at mixed_grid (-1) (-1) = Some 3" by code_simp
  moreover have "at mixed_grid (w mixed_grid - 1) (h mixed_grid - 1) = Some 3" by code_simp
  moreover have "cmod (cmod (-7) 4 + 4) 4 = 1" by code_simp
  ultimately show ?thesis using toroidal_at [OF a, of "-1" "-1"] a by simp
qed

subsection \<open>C7: random filling\<close>

text \<open>
  C7. \<open>randomize\<close> seeds a fresh generator on every call (the source fixes the seed to
  12345 and takes the fill probability only), so on two grids of the same dimensions two
  calls with the same fill probability and the same generator return, and return the same
  cell vector, whatever the grids held before. Cell number \<open>k\<close> is 1 when the draw number
  \<open>k\<close> of the generator is below the fill probability and 0 otherwise.
\<close>

theorem randomize_deterministic:
  assumes "well_formed g1" "well_formed g2" "w g1 = w g2" "h g1 = h g2"
  shows "\<exists>cs. randomize seed_rng draw fill_prob g1 = Some (g1\<lparr>cells := cs\<rparr>) \<and>
              randomize seed_rng draw fill_prob g2 = Some (g2\<lparr>cells := cs\<rparr>) \<and>
              cs = map (random_cell draw fill_prob (seed_rng 12345)) [0..<nat (w g1 * h g1)]"
  using randomize_cells [OF assms(1), of seed_rng draw fill_prob]
    randomize_cells [OF assms(2), of seed_rng draw fill_prob] assms(3,4) by simp

theorem randomize_deterministic_witness:
  "well_formed mixed_grid \<and> well_formed scenario_grid \<and>
   w mixed_grid = w scenario_grid \<and> h mixed_grid = h scenario_grid \<and>
   cells mixed_grid \<noteq> cells scenario_grid \<and>
   (\<exists>cs. randomize lcg_seed lcg_draw 50 mixed_grid = Some (mixed_grid\<lparr>cells := cs\<rparr>) \<and>
         randomize lcg_seed lcg_draw 50 scenario_grid = Some (scenario_grid\<lparr>cells := cs\<rparr>) \<and>
         cs = map (random_cell lcg_draw 50 (lcg_seed 12345)) [0..<nat (w mixed_grid * h mixed_grid)])"
proof -
  have a: "well_formed mixed_grid" by code_simp
  have b: "well_formed scenario_grid" by code_simp
  have c: "w mixed_grid = w scenario_grid" by code_simp
  have d: "h mixed_grid = h scenario_grid" by code_simp
  have e: "cells mixed_grid \<noteq> cells scenario_grid" by code_simp
  from randomize_deterministic [OF a b c d, of lcg_seed lcg_draw 50] a b c d e
  show ?thesis by simp
qed

subsection \<open>C8: the state domain\<close>

text \<open>
  C8. With the sand rule table, if every cell of the grid is one of 0, 1, 2, 3, then
  \<open>step\<close> returns a grid whose cells are all among 0, 1, 2, 3.
\<close>

theorem step_keeps_domain:
  assumes "well_formed g" "rules g = build_sand_rules" "list_all in_domain (cells g)"
  shows "\<exists>g'. step g = Some g' \<and> list_all in_domain (cells g')"
proof -
  have "\<exists>n'. step g = Some (g\<lparr>cells := n', offset := \<not> offset g\<rparr>) \<and>
           length n' = length (cells g) \<and>
           (\<forall>i < length n'. n' ! i = cells g ! i \<or>
              (in_domain (cells g ! i) \<longrightarrow> in_domain (n' ! i)))"
  proof (rule step_pointwise [where R = "\<lambda>a c. in_domain a \<longrightarrow> in_domain c"])
    show "\<forall>b out. rules_loop (rules g) b = Some out \<longrightarrow>
        slotwise (\<lambda>a c. in_domain a \<longrightarrow> in_domain c) b out"
      unfolding assms(2) by (intro allI impI sand_rules_domain)
  qed (rule assms(1))
  then obtain n' where s: "step g = Some (g\<lparr>cells := n', offset := \<not> offset g\<rparr>)"
    and l: "length n' = length (cells g)"
    and p: "\<forall>i < length n'. n' ! i = cells g ! i \<or>
              (in_domain (cells g ! i) \<longrightarrow> in_domain (n' ! i))" by blast
  have "\<forall>i < length n'. in_domain (n' ! i)"
    using p l assms(3) by (auto simp add: list_all_length)
  then show ?thesis using s by (simp add: list_all_length)
qed

theorem step_keeps_domain_witness:
  "well_formed mixed_grid \<and> rules mixed_grid = build_sand_rules \<and>
   list_all in_domain (cells mixed_grid) \<and>
   (\<exists>g'. step mixed_grid = Some g' \<and> list_all in_domain (cells g'))"
proof -
  have a: "well_formed mixed_grid" by code_simp
  have b: "rules mixed_grid = build_sand_rules" by code_simp
  have c: "list_all in_domain (cells mixed_grid)" by code_simp
  from step_keeps_domain [OF a b c] a b c show ?thesis by simp
qed

subsection \<open>C9: ground and source never move\<close>

text \<open>
  C9. With the sand rule table, a cell that holds 2 or 3 before a \<open>step\<close> holds the same
  value at the same position after it, for every grid of positive dimensions (even or odd)
  and every position.
\<close>

theorem step_keeps_ground_and_source:
  assumes "well_formed g" "rules g = build_sand_rules" "at g x y = Some v" "v = 2 \<or> v = 3"
  shows "\<exists>g'. step g = Some g' \<and> at g' x y = Some v"
proof -
  have "\<exists>n'. step g = Some (g\<lparr>cells := n', offset := \<not> offset g\<rparr>) \<and>
           length n' = length (cells g) \<and>
           (\<forall>i < length n'. n' ! i = cells g ! i \<or>
              (cells g ! i = 2 \<or> cells g ! i = 3 \<longrightarrow> n' ! i = cells g ! i))"
  proof (rule step_pointwise [where R = "\<lambda>a c. a = 2 \<or> a = 3 \<longrightarrow> c = a"])
    show "\<forall>b out. rules_loop (rules g) b = Some out \<longrightarrow>
        slotwise (\<lambda>a c. a = 2 \<or> a = 3 \<longrightarrow> c = a) b out"
      unfolding assms(2) by (intro allI impI sand_rules_fixed)
  qed (rule assms(1))
  then obtain n' where s: "step g = Some (g\<lparr>cells := n', offset := \<not> offset g\<rparr>)"
    and l: "length n' = length (cells g)"
    and p: "\<forall>i < length n'. n' ! i = cells g ! i \<or>
              (cells g ! i = 2 \<or> cells g ! i = 3 \<longrightarrow> n' ! i = cells g ! i)" by blast
  let ?g = "g\<lparr>cells := n', offset := \<not> offset g\<rparr>"
  let ?i = "(y mod h g) * w g + x mod w g"
  have wf': "well_formed ?g" using assms(1) l by (simp add: well_formed_def)
  have r: "0 \<le> ?i \<and> ?i < w g * h g"
    using assms(1) by (intro index_in_range) (simp_all add: well_formed_def)
  then have i: "nat ?i < length n'" using assms(1) l by (simp add: well_formed_def nat_less_iff)
  have v: "cells g ! nat ?i = v" using assms(3) by (simp add: at_wf [OF assms(1)])
  then have "n' ! nat ?i = v" using p i assms(4) by auto
  then have "at ?g x y = Some v" by (simp add: at_wf [OF wf'])
  then show ?thesis using s by simp
qed

theorem step_keeps_ground_and_source_witness:
  "well_formed mixed_grid \<and> rules mixed_grid = build_sand_rules \<and>
   at mixed_grid 2 (-3) = Some 2 \<and> ((2::int) = 2 \<or> (2::int) = 3) \<and>
   (\<exists>g'. step mixed_grid = Some g' \<and> at g' 2 (-3) = Some 2)"
proof -
  have a: "well_formed mixed_grid" by code_simp
  have b: "rules mixed_grid = build_sand_rules" by code_simp
  have c: "at mixed_grid 2 (-3) = Some 2" by code_simp
  have d: "(2::int) = 2 \<or> (2::int) = 3" by simp
  from step_keeps_ground_and_source [OF a b c d] a b c show ?thesis by simp
qed

subsection \<open>C10: sand is never lost\<close>

text \<open>
  C10. With the sand rule table, on a grid of even dimensions, \<open>step\<close> returns a grid
  with at least as many cells of value 1 as before. Block by block: when one of the rules
  1 to 3 rewrites a block \<open>b\<close>, directly or mirrored, the output has exactly as many 1s as
  \<open>b\<close>; when none of them applies and rule 4, the source rule, rewrites a block \<open>b'\<close>,
  the output has exactly one 1 more than \<open>b'\<close>. The blocks of a phase are disjoint, so
  the counts of the blocks add up to the count of the grid.
\<close>

theorem sand_never_decreases:
  assumes "even_grid g" "rules g = build_sand_rules"
  shows "(\<exists>g'. step g = Some g' \<and> sand_count (cells g) \<le> sand_count (cells g')) \<and>
         (rules_loop (take 3 build_sand_rules) b = Some out \<longrightarrow>
            block_sand out = block_sand b) \<and>
         (rules_loop (take 3 build_sand_rules) b' = None \<and>
          rules_loop build_sand_rules b' = Some out' \<longrightarrow>
            block_sand out' = block_sand b' + 1)"
proof (intro conjI impI)
  have o: "phase_offset g = 0 \<or> phase_offset g = 1" by (simp add: phase_offset_def)
  have "\<exists>n'. step_from (cells g) g = Some (g\<lparr>cells := n', offset := \<not> offset g\<rparr>) \<and>
     length n' = length (cells g) \<and> sand_count (cells g) \<le> sand_count n' \<and>
     (\<forall>ax ay. anchor (phase_offset g) (w g) ax \<longrightarrow> anchor (phase_offset g) (h g) ay \<longrightarrow>
        block_at n' (w g) (h g) ax ay = block_result g (cells g) ax ay)"
  proof (rule step_from_even [where C = "\<lambda>n. sand_count (cells g) \<le> sand_count n"])
    fix bx "by" n n'
    assume "anchor (phase_offset g) (w g) bx" "anchor (phase_offset g) (h g) by"
      "length n = length (cells g)"
      "block_at n (w g) (h g) bx by = block_at (cells g) (w g) (h g) bx by"
      "step_block g bx by n = Some n'"
    with assms o have "sand_count n \<le> sand_count n'" by (intro step_block_sand)
    moreover assume "sand_count (cells g) \<le> sand_count n"
    ultimately show "sand_count (cells g) \<le> sand_count n'" by simp
  qed (simp_all add: assms(1))
  then show "\<exists>g'. step g = Some g' \<and> sand_count (cells g) \<le> sand_count (cells g')"
    by (auto simp add: step_def)
next
  assume "rules_loop (take 3 build_sand_rules) b = Some out"
  then show "block_sand out = block_sand b" by (rule sand_rules_exact)
next
  assume "rules_loop (take 3 build_sand_rules) b' = None \<and>
          rules_loop build_sand_rules b' = Some out'"
  then show "block_sand out' = block_sand b' + 1" by (intro sand_source_adds) simp_all
qed

theorem sand_never_decreases_witness:
  "even_grid mixed_grid \<and> rules mixed_grid = build_sand_rules \<and>
   sand_count (cells mixed_grid) = 3 \<and>
   (\<exists>g'. step mixed_grid = Some g' \<and> sand_count (cells mixed_grid) \<le> sand_count (cells g')) \<and>
   block_at (cells mixed_grid) 4 4 0 0 = (1, 1, 0, 0) \<and>
   rules_loop (take 3 build_sand_rules) (1, 1, 0, 0) = Some (0, 0, 1, 1) \<and>
   block_sand (0, 0, 1, 1) = block_sand (1, 1, 0, 0) \<and>
   block_at (cells mixed_grid) 4 4 2 0 = (0, 3, 2, 0) \<and>
   rules_loop (take 3 build_sand_rules) (0, 3, 2, 0) = None \<and>
   rules_loop build_sand_rules (0, 3, 2, 0) = Some (0, 3, 2, 1) \<and>
   block_sand (0, 3, 2, 1) = block_sand (0, 3, 2, 0) + 1"
proof -
  have a: "even_grid mixed_grid" by code_simp
  have b: "rules mixed_grid = build_sand_rules" by code_simp
  have c: "sand_count (cells mixed_grid) = 3" by code_simp
  have d: "block_at (cells mixed_grid) 4 4 0 0 = (1, 1, 0, 0)" by code_simp
  have e: "rules_loop (take 3 build_sand_rules) (1, 1, 0, 0) = Some (0, 0, 1, 1)" by code_simp
  have f: "block_at (cells mixed_grid) 4 4 2 0 = (0, 3, 2, 0)" by code_simp
  have i: "rules_loop (take 3 build_sand_rules) (0, 3, 2, 0) = None" by code_simp
  have j: "rules_loop build_sand_rules (0, 3, 2, 0) = Some (0, 3, 2, 1)" by code_simp
  from sand_never_decreases [OF a b, of "(1, 1, 0, 0)" "(0, 0, 1, 1)" "(0, 3, 2, 0)" "(0, 3, 2, 1)"]
    a b c d e f i j
  show ?thesis by simp
qed

end
